theory Spec2Isabelle
  imports Main "HOL-Library.Word"
begin

unbundle bit_operations_syntax

section \<open>The event slot table of MicroLua (the mlua.event part of src/lib/pico.time.c)\<close>

text \<open>
  The C module keeps one static \<open>EventState\<close> (the pending bitmap and one claimed-mask
  per core, each \<open>EVENTS_SIZE\<close> words of 32 bits) and one Lua table in the registry,
  keyed by the address of \<open>event_state\<close>, that maps an event id to its watchers.
  The model is a record of these, passed in and returned by every operation.

  \<^item> An event handle \<open>MLuaEvent\<close> is an unsigned integer; its type and the constant
    \<open>MLUA_EVENT_UNSET\<close> are declared in a header that is not among the sources, so the
    handle is a \<open>nat\<close> and the unset value is a parameter of \<open>mlua_event_unclaim\<close>.
  \<^item> \<open>NUM_CORES\<close> comes from the SDK; in the model it is the number of masks the state
    holds, and \<open>get_core_num()\<close> is the parameter \<open>core\<close>.
  \<^item> \<open>mlua_event_lock\<close> / \<open>mlua_event_unlock\<close> delimit critical sections; the model runs
    one operation at a time, so a critical section is a single state update.
  \<^item> \<open>__sev()\<close> is counted in the field \<open>sev\<close>. The field \<open>timer\<close> is the hardware
    timer, for a platform whose \<open>time_reached\<close> reads it (see \<open>platform\<close> below).
\<close>

definition NUM_EVENTS :: nat where
  "NUM_EVENTS = 128"

definition EVENTS_SIZE :: nat where
  "EVENTS_SIZE = (NUM_EVENTS + 31) div 32"

text \<open>
  A watcher entry of the registry table: absent (\<open>None\<close> in the map), a single thread, or
  a Lua table whose keys are the watching threads (every value is \<open>true\<close>). The table is
  the list of its keys; \<open>table_set\<close> is the assignment \<open>t[k] = true\<close> and \<open>table_unset\<close>
  is \<open>t[k] = nil\<close>. The order of the list stands for the order in which \<open>lua_next\<close>
  visits the keys, which Lua leaves unspecified. The module stores nothing else in
  the registry table, so the \<open>default\<close> branches of its \<open>switch\<close> statements (an entry
  of any other type) have no counterpart in the model.
\<close>

datatype 'thr watcher = Thread 'thr | Table "'thr list"

definition table_set :: "'thr \<Rightarrow> 'thr list \<Rightarrow> 'thr list" where
  "table_set k t = (if k \<in> set t then t else k # t)"

definition table_unset :: "'thr \<Rightarrow> 'thr list \<Rightarrow> 'thr list" where
  "table_unset k t = filter (\<lambda>x. x \<noteq> k) t"

record 'thr machine =
  pending :: "32 word list"
  mask :: "32 word list list"
  watchers :: "nat \<Rightarrow> 'thr watcher option"
  sev :: nat
  timer :: "64 word"

text \<open>The arrays have the sizes the C declaration gives them.\<close>

definition wf_state :: "('thr, 'z) machine_scheme \<Rightarrow> bool" where
  "wf_state s \<longleftrightarrow>
     length (pending s) = EVENTS_SIZE \<and> list_all (\<lambda>m. length m = EVENTS_SIZE) (mask s)"

text \<open>
  \<open>__builtin_ffs(x)\<close>: one plus the index of the least significant set bit of \<open>x\<close>, and
  0 when \<open>x\<close> is 0.
\<close>

definition builtin_ffs :: "32 word \<Rightarrow> nat" where
  "builtin_ffs w = (case find (bit w) [0..<32] of None \<Rightarrow> 0 | Some i \<Rightarrow> Suc i)"

text \<open>What the result of \<open>builtin_ffs\<close> says about the bits, and the measure of the loops that
  clear the bit it found.\<close>

lemma ffs_zero_iff: "builtin_ffs w = 0 \<longleftrightarrow> w = 0"
proof
  assume "builtin_ffs w = 0"
  then have none: "\<forall>i<32. \<not> bit w i"
    by (auto simp: builtin_ffs_def find_None_iff split: option.splits)
  show "w = 0"
  proof (rule bit_word_eqI)
    fix n assume "n < LENGTH(32)"
    with none show "bit w n = bit (0::32 word) n" by simp
  qed
next
  assume "w = 0"
  then show "builtin_ffs w = 0"
    by (simp add: builtin_ffs_def find_None_iff split: option.splits)
qed

lemma ffs_Suc_iff:
  "builtin_ffs w = Suc i \<longleftrightarrow> i < 32 \<and> bit w i \<and> (\<forall>j<i. \<not> bit w j)"
  unfolding builtin_ffs_def
  by (auto split: option.splits simp: find_Some_iff find_None_iff)
     (metis nat_neq_iff)+

lemma clear_bit_less:
  assumes "bit (w::32 word) i"
  shows "unat (w AND NOT (push_bit i 1)) < unat w"
proof -
  have le: "w AND NOT (push_bit i 1) \<le> w"
    by (rule word_and_le2)
  have "bit w i \<noteq> bit (w AND NOT (push_bit i 1)) i"
    using assms by (auto simp: bit_simps)
  then have "w AND NOT (push_bit i 1) \<noteq> w" by metis
  with le have "w AND NOT (push_bit i 1) < w" by simp
  then show ?thesis by (simp add: word_less_nat_alt)
qed

lemma ffs_clear_less:
  "0 < builtin_ffs w \<Longrightarrow> unat (w AND NOT (push_bit (builtin_ffs w - Suc 0) 1)) < unat w"
proof -
  assume "0 < builtin_ffs w"
  then obtain i where i: "builtin_ffs w = Suc i" by (cases "builtin_ffs w") auto
  then have "bit w i" by (simp add: ffs_Suc_iff)
  with i show ?thesis by (simp add: clear_bit_less del: push_bit_of_1)
qed

subsection \<open>claim and unclaim\<close>

text \<open>
  The inner loop of \<open>mlua_event_claim\<close>:
  \<^verbatim>\<open>for (uint core = 0; core < NUM_CORES; ++core) mask |= event_state.mask[core][block];\<close>
\<close>

definition union_mask :: "32 word list list \<Rightarrow> nat \<Rightarrow> 32 word" where
  "union_mask ms block = fold (\<lambda>m acc. acc OR m ! block) ms 0"

text \<open>
  The outer loop over the blocks, with its early return. The result is the returned
  error string (\<open>None\<close> for \<open>NULL\<close>), the value of \<open>*ev\<close> and the state.
\<close>

fun claim_blocks ::
  "nat \<Rightarrow> nat list \<Rightarrow> nat \<Rightarrow> ('thr, 'z) machine_scheme
     \<Rightarrow> string option \<times> nat \<times> ('thr, 'z) machine_scheme" where
  "claim_blocks core [] ev s = (Some ''no events available'', ev, s)"
| "claim_blocks core (block # blocks) ev s =
     (let m = union_mask (mask s) block;
          idx = builtin_ffs (NOT m)
      in if idx > 0
         then (None, block * 32 + (idx - 1),
               s\<lparr>mask := (mask s)[core :=
                    (mask s ! core)[block := mask s ! core ! block OR push_bit (idx - 1) 1]]\<rparr>)
         else claim_blocks core blocks ev s)"

definition mlua_event_claim ::
  "nat \<Rightarrow> nat \<Rightarrow> ('thr, 'z) machine_scheme
     \<Rightarrow> string option \<times> nat \<times> ('thr, 'z) machine_scheme" where
  "mlua_event_claim core ev s =
     (if ev < NUM_EVENTS then (Some ''event already claimed'', ev, s)
      else claim_blocks core [0..<EVENTS_SIZE] ev s)"

text \<open>
  \<open>mlua_event_unclaim\<close> returns the value of \<open>*ev\<close> and the state. The Lua calls after the
  critical section assign \<open>nil\<close> to the registry table's entry for the event.
\<close>

definition mlua_event_unclaim ::
  "nat \<Rightarrow> nat \<Rightarrow> nat \<Rightarrow> ('thr, 'z) machine_scheme \<Rightarrow> nat \<times> ('thr, 'z) machine_scheme" where
  "mlua_event_unclaim unset core e s =
     (if e \<ge> NUM_EVENTS then (e, s)
      else
        let pmask = mask s ! core ! (e div 32);
            m = pmask AND NOT (push_bit (e mod 32) 1)
        in if m = pmask then (e, s)
           else (unset,
                 s\<lparr>mask := (mask s)[core := (mask s ! core)[e div 32 := m]],
                   watchers := (watchers s)(e := None)\<rparr>))"

subsection \<open>set and clear\<close>

text \<open>
  The two producers index \<open>event_state.pending\<close> with \<open>ev / 32\<close>. An index outside the
  array is undefined behaviour in C; the model returns \<open>None\<close> there, so that the
  absence of such an access is a statement about the result.
\<close>

definition mlua_event_set ::
  "nat \<Rightarrow> ('thr, 'z) machine_scheme \<Rightarrow> ('thr, 'z) machine_scheme option" where
  "mlua_event_set ev s =
     (if ev \<ge> NUM_EVENTS then Some s
      else if ev div 32 < length (pending s)
      then Some (s\<lparr>pending := (pending s)[ev div 32 :=
                       pending s ! (ev div 32) OR push_bit (ev mod 32) 1],
                    sev := Suc (sev s)\<rparr>)
      else None)"

definition mlua_event_clear ::
  "nat \<Rightarrow> ('thr, 'z) machine_scheme \<Rightarrow> ('thr, 'z) machine_scheme option" where
  "mlua_event_clear ev s =
     (if ev \<ge> NUM_EVENTS then Some s
      else if ev div 32 < length (pending s)
      then Some (s\<lparr>pending := (pending s)[ev div 32 :=
                       pending s ! (ev div 32) AND NOT (push_bit (ev mod 32) 1)]\<rparr>)
      else None)"

subsection \<open>watch and unwatch\<close>

text \<open>
  \<open>luaL_error\<close> does not return: the raised message is the first component of the
  result, and the state is as it was. \<open>yieldable\<close> is \<open>lua_isyieldable(ls)\<close> and \<open>thr\<close>
  is the running thread, the value of \<open>lua_pushthread(ls)\<close>.
\<close>

definition mlua_event_watch ::
  "bool \<Rightarrow> 'thr \<Rightarrow> nat \<Rightarrow> ('thr, 'z) machine_scheme
     \<Rightarrow> string option \<times> ('thr, 'z) machine_scheme" where
  "mlua_event_watch yieldable thr ev s =
     (if ev \<ge> NUM_EVENTS then (Some ''watching disabled event'', s)
      else if \<not> yieldable then (Some ''watching event in unyieldable thread'', s)
      else
        (case watchers s ev of
           None \<Rightarrow> (None, s\<lparr>watchers := (watchers s)(ev := Some (Thread thr))\<rparr>)
         | Some (Thread w) \<Rightarrow>
             if w = thr then (None, s)
             else (None, s\<lparr>watchers := (watchers s)(ev :=
                             Some (Table (table_set w (table_set thr []))))\<rparr>)
         | Some (Table t) \<Rightarrow>
             (None, s\<lparr>watchers := (watchers s)(ev := Some (Table (table_set thr t)))\<rparr>)))"

definition mlua_event_unwatch ::
  "'thr \<Rightarrow> nat \<Rightarrow> ('thr, 'z) machine_scheme \<Rightarrow> ('thr, 'z) machine_scheme" where
  "mlua_event_unwatch thr ev s =
     (if ev \<ge> NUM_EVENTS then s
      else
        (case watchers s ev of
           Some (Thread w) \<Rightarrow>
             if w \<noteq> thr then s else s\<lparr>watchers := (watchers s)(ev := None)\<rparr>
         | Some (Table t) \<Rightarrow>
             s\<lparr>watchers := (watchers s)(ev := Some (Table (table_unset thr t)))\<rparr>
         | None \<Rightarrow> s))"

definition watching :: "('thr, 'z) machine_scheme \<Rightarrow> nat \<Rightarrow> 'thr \<Rightarrow> bool" where
  "watching s ev thr =
     (case watchers s ev of
        None \<Rightarrow> False
      | Some (Thread w) \<Rightarrow> w = thr
      | Some (Table t) \<Rightarrow> thr \<in> set t)"

subsection \<open>yield, suspend and wait\<close>

text \<open>
  A C function of a Lua thread ends in one of three ways: it returns a number of
  results, it raises an error, or it yields with a continuation. \<open>mlua_event_suspend\<close>
  yields the value at stack index \<open>index\<close> (a deadline) when \<open>index\<close> is not 0, and
  \<open>true\<close> otherwise; the continuation is \<open>mlua_event_wait_2\<close> with the event as
  context, and \<open>mlua_event_wait_1\<close> has pushed the saved \<open>index\<close> for it.

  \<open>lua_yieldk\<close> belongs to Lua: in a yieldable thread it does not return to its caller,
  in any other thread it raises an error.
\<close>

datatype yielded = Value_at int | Yield_true

datatype outcome = Returned int | Raised string | Suspended yielded nat int

definition mlua_event_yield :: "bool \<Rightarrow> yielded \<Rightarrow> nat \<Rightarrow> int \<Rightarrow> outcome" where
  "mlua_event_yield yieldable v ctx saved =
     (if yieldable then Suspended v ctx saved else Raised ''attempt to yield'')"

definition mlua_event_suspend :: "bool \<Rightarrow> nat \<Rightarrow> int \<Rightarrow> int \<Rightarrow> outcome" where
  "mlua_event_suspend yieldable ctx index saved =
     mlua_event_yield yieldable (if index \<noteq> 0 then Value_at index else Yield_true) ctx saved"

definition mlua_event_wait_1 :: "bool \<Rightarrow> nat \<Rightarrow> int \<Rightarrow> outcome" where
  "mlua_event_wait_1 yieldable event index = mlua_event_suspend yieldable event index index"

text \<open>
  The try function is a \<open>lua_CFunction\<close>: it may change the state, and it returns an
  \<open>int\<close> (\<open>Inr\<close>) or raises an error (\<open>Inl\<close>), which then leaves the caller as well.
\<close>

definition mlua_event_wait ::
  "bool \<Rightarrow> 'thr \<Rightarrow> nat
     \<Rightarrow> (('thr, 'z) machine_scheme \<Rightarrow> (string + int) \<times> ('thr, 'z) machine_scheme)
     \<Rightarrow> int \<Rightarrow> ('thr, 'z) machine_scheme \<Rightarrow> outcome \<times> ('thr, 'z) machine_scheme" where
  "mlua_event_wait yieldable thr event try_get index s =
     (if event \<ge> NUM_EVENTS then (Raised ''wait for unclaimed event'', s)
      else
        (case try_get s of
           (Inl err, s1) \<Rightarrow> (Raised err, s1)
         | (Inr res, s1) \<Rightarrow>
             if res \<ge> 0 then (Returned res, s1)
             else
               (case mlua_event_watch yieldable thr event s1 of
                  (Some err, s2) \<Rightarrow> (Raised err, s2)
                | (None, s2) \<Rightarrow> (mlua_event_wait_1 yieldable event index, s2))))"

definition mlua_event_wait_2 ::
  "bool \<Rightarrow> 'thr
     \<Rightarrow> (('thr, 'z) machine_scheme \<Rightarrow> (string + int) \<times> ('thr, 'z) machine_scheme)
     \<Rightarrow> int \<Rightarrow> nat \<Rightarrow> ('thr, 'z) machine_scheme \<Rightarrow> outcome \<times> ('thr, 'z) machine_scheme" where
  "mlua_event_wait_2 yieldable thr try_get index ctx s =
     (case try_get s of
        (Inl err, s1) \<Rightarrow> (Raised err, s1)
      | (Inr res, s1) \<Rightarrow>
          if res < 0 then (mlua_event_wait_1 yieldable ctx index, s1)
          else (Returned res, mlua_event_unwatch thr ctx s1))"

subsection \<open>Reading the bitmaps\<close>

text \<open>
  Slot \<open>ev\<close> lives in bit \<open>ev % 32\<close> of word \<open>ev / 32\<close>. These predicates read the
  pending bitmap and the claimed-masks the way the C code addresses them.
\<close>

definition is_pending :: "('thr, 'z) machine_scheme \<Rightarrow> nat \<Rightarrow> bool" where
  "is_pending s ev = bit (pending s ! (ev div 32)) (ev mod 32)"

definition claimed_by :: "('thr, 'z) machine_scheme \<Rightarrow> nat \<Rightarrow> nat \<Rightarrow> bool" where
  "claimed_by s core ev = bit (mask s ! core ! (ev div 32)) (ev mod 32)"

definition is_claimed :: "('thr, 'z) machine_scheme \<Rightarrow> nat \<Rightarrow> bool" where
  "is_claimed s ev = list_ex (\<lambda>m. bit (m ! (ev div 32)) (ev mod 32)) (mask s)"

text \<open>
  The state after start-up: \<open>event_state\<close> is a zero-initialised static and
  \<open>luaopen_mlua_event\<close> stores an empty watcher table.
\<close>

definition boot :: "nat \<Rightarrow> nat machine" where
  "boot ncores =
     \<lparr>pending = replicate EVENTS_SIZE 0, mask = replicate ncores (replicate EVENTS_SIZE 0),
      watchers = (\<lambda>_. None), sev = 0, timer = 0\<rparr>"

subsection \<open>A thread is registered at most once\<close>

text \<open>A watcher table lists each of its keys once.\<close>

definition entry_once :: "'thr watcher option \<Rightarrow> bool" where
  "entry_once e = (case e of Some (Table t) \<Rightarrow> distinct t | _ \<Rightarrow> True)"

subsection \<open>Example states\<close>

text \<open>
  Thread 1 and then thread 2 watch event 3; then thread 2 stops watching.
\<close>

definition watched1 :: "nat machine" where
  "watched1 = snd (mlua_event_watch True 1 3 (boot 2))"

definition watched2 :: "nat machine" where
  "watched2 = snd (mlua_event_watch True 2 3 watched1)"

definition watched_last :: "nat machine" where
  "watched_last = mlua_event_unwatch 2 3 watched2"

text \<open>
  Core 0 claims an event from an unset handle (255) and gets id 0; then event 0 is set
  pending.
\<close>

definition claimed0 :: "nat machine" where
  "claimed0 = snd (snd (mlua_event_claim 0 255 (boot 2)))"

definition claimed_pending0 :: "nat machine" where
  "claimed_pending0 = the (mlua_event_set 0 claimed0)"

text \<open>A block is full when every one of its 32 slots is claimed by some core.\<close>

definition block_full :: "('thr, 'z) machine_scheme \<Rightarrow> nat \<Rightarrow> bool" where
  "block_full s b \<longleftrightarrow> union_mask (mask s) b = NOT 0"

text \<open>Core 0 has claimed all the slots.\<close>

definition full_state :: "nat machine" where
  "full_state = (boot 2)\<lparr>mask := [replicate EVENTS_SIZE (- 1), replicate EVENTS_SIZE 0]\<rparr>"

subsection \<open>dispatch\<close>

text \<open>
  \<open>mod_dispatch\<close> is called from Lua with the resume function at stack index 1 and
  the deadline at index 2. The resume function is a parameter of the model: it is
  given a thread and the state, and returns whether its result is true together with
  the state the resumed thread left. (A resume function that raises an error is not
  modelled.)

  A table of watchers is traversed with \<open>lua_next\<close>; the model resumes the keys the
  table had when the traversal began, in the order of the list.
\<close>

fun resume_all ::
  "('thr \<Rightarrow> ('thr, 'z) machine_scheme \<Rightarrow> bool \<times> ('thr, 'z) machine_scheme)
     \<Rightarrow> 'thr list \<Rightarrow> bool \<Rightarrow> ('thr, 'z) machine_scheme
     \<Rightarrow> bool \<times> ('thr, 'z) machine_scheme" where
  "resume_all resume [] wake s = (wake, s)"
| "resume_all resume (t # ts) wake s =
     (let (r, s1) = resume t s in resume_all resume ts (wake \<or> r) s1)"

text \<open>The \<open>switch\<close> on the type of the registry entry of one event.\<close>

definition resume_watchers ::
  "('thr \<Rightarrow> ('thr, 'z) machine_scheme \<Rightarrow> bool \<times> ('thr, 'z) machine_scheme)
     \<Rightarrow> nat \<Rightarrow> bool \<Rightarrow> ('thr, 'z) machine_scheme
     \<Rightarrow> bool \<times> ('thr, 'z) machine_scheme" where
  "resume_watchers resume ev wake s =
     (case watchers s ev of
        Some (Thread w) \<Rightarrow> (let (r, s1) = resume w s in (wake \<or> r, s1))
      | Some (Table t) \<Rightarrow> resume_all resume t wake s
      | None \<Rightarrow> (wake, s))"

text \<open>
  The inner loop over the bits of \<open>active\<close>:
  \<^verbatim>\<open>for (;;) { int idx = __builtin_ffs(active); if (idx == 0) break; --idx;
             active &= ~(1u << idx); switch (lua_rawgeti(ls, -1, block * 32 + idx)) ... }\<close>
\<close>

function dispatch_active ::
  "('thr \<Rightarrow> ('thr, 'z) machine_scheme \<Rightarrow> bool \<times> ('thr, 'z) machine_scheme)
     \<Rightarrow> nat \<Rightarrow> 32 word \<Rightarrow> bool \<Rightarrow> ('thr, 'z) machine_scheme
     \<Rightarrow> bool \<times> ('thr, 'z) machine_scheme" where
  "dispatch_active resume block active wake s =
     (let idx = builtin_ffs active
      in if idx = 0 then (wake, s)
         else
           let (wake1, s1) = resume_watchers resume (block * 32 + (idx - 1)) wake s
           in dispatch_active resume block (active AND NOT (push_bit (idx - 1) 1)) wake1 s1)"
  by pat_completeness auto
termination
  by (relation "measure (\<lambda>(resume, block, active, wake, s). unat active)")
    (auto simp: ffs_clear_less simp del: push_bit_of_1)

declare dispatch_active.simps [simp del]

text \<open>
  The critical section at the head of each block: it reads the pending word and the
  core's mask word, clears the masked bits from the pending word and keeps the masked
  pending bits as \<open>active\<close>.
\<close>

definition dispatch_snapshot ::
  "nat \<Rightarrow> nat \<Rightarrow> ('thr, 'z) machine_scheme \<Rightarrow> 32 word \<times> ('thr, 'z) machine_scheme" where
  "dispatch_snapshot core block s =
     (let active = pending s ! block;
          m = mask s ! core ! block
      in (active AND m, s\<lparr>pending := (pending s)[block := active AND NOT m]\<rparr>))"

fun dispatch_blocks ::
  "('thr \<Rightarrow> ('thr, 'z) machine_scheme \<Rightarrow> bool \<times> ('thr, 'z) machine_scheme)
     \<Rightarrow> nat \<Rightarrow> nat list \<Rightarrow> bool \<Rightarrow> ('thr, 'z) machine_scheme
     \<Rightarrow> bool \<times> ('thr, 'z) machine_scheme" where
  "dispatch_blocks resume core [] wake s = (wake, s)"
| "dispatch_blocks resume core (block # blocks) wake s =
     (let (active, s1) = dispatch_snapshot core block s;
          (wake1, s2) = dispatch_active resume block active wake s1
      in dispatch_blocks resume core blocks wake1 s2)"

text \<open>One pass of the outer \<open>for (;;)\<close> loop, up to the test of \<open>wake\<close>.\<close>

definition dispatch_pass ::
  "('thr \<Rightarrow> ('thr, 'z) machine_scheme \<Rightarrow> bool \<times> ('thr, 'z) machine_scheme)
     \<Rightarrow> nat \<Rightarrow> ('thr, 'z) machine_scheme \<Rightarrow> bool \<times> ('thr, 'z) machine_scheme" where
  "dispatch_pass resume core s = dispatch_blocks resume core [0..<EVENTS_SIZE] False s"

text \<open>
  The time functions and the wait instructions belong to the Pico SDK and the
  processor, and are not among the sources. They are parameters of the model:
  \<open>is_nil_time\<close>, \<open>is_at_the_end_of_time\<close> and \<open>time_reached\<close> as predicates
  (the last one reads the clock, so it depends on the state), and
  \<open>best_effort_wfe_or_timeout\<close> and \<open>__wfe\<close> as what happens to the state while the
  core waits (time passes, interrupt handlers set events pending).
\<close>

record 's platform =
  is_nil_time :: "64 word \<Rightarrow> bool"
  is_at_the_end_of_time :: "64 word \<Rightarrow> bool"
  time_reached :: "64 word \<Rightarrow> 's \<Rightarrow> bool"
  best_effort_wfe_or_timeout :: "64 word \<Rightarrow> 's \<Rightarrow> 's"
  wfe :: "'s \<Rightarrow> 's"

text \<open>
  The loop of \<open>mod_dispatch\<close> may run forever, so the model takes fuel: one unit per
  pass, \<open>None\<close> when the fuel runs out before the loop is left. The C function returns
  0 (no Lua result); the model returns the value \<open>wake\<close> had when the loop was left,
  and the state.
\<close>

fun mod_dispatch ::
  "nat \<Rightarrow> ('thr, 'z) machine_scheme platform
     \<Rightarrow> ('thr \<Rightarrow> ('thr, 'z) machine_scheme \<Rightarrow> bool \<times> ('thr, 'z) machine_scheme)
     \<Rightarrow> nat \<Rightarrow> 64 word \<Rightarrow> ('thr, 'z) machine_scheme
     \<Rightarrow> (bool \<times> ('thr, 'z) machine_scheme) option" where
  "mod_dispatch 0 sdk resume core deadline s = None"
| "mod_dispatch (Suc fuel) sdk resume core deadline s =
     (let (wake, s1) = dispatch_pass resume core s
      in if wake \<or> is_nil_time sdk deadline \<or> time_reached sdk deadline s1
         then Some (wake, s1)
         else mod_dispatch fuel sdk resume core deadline
                (if \<not> is_at_the_end_of_time sdk deadline
                 then best_effort_wfe_or_timeout sdk deadline s1
                 else wfe sdk s1))"

subsection \<open>What one pass does, in terms of slots\<close>

text \<open>The indices of the set bits of a word, in ascending order.\<close>

definition set_bits :: "32 word \<Rightarrow> nat list" where
  "set_bits w = filter (bit w) [0..<32]"

text \<open>A resume function that leaves the pending bitmap and the masks as they are.\<close>

definition keeps_table ::
  "('thr \<Rightarrow> ('thr, 'z) machine_scheme \<Rightarrow> bool \<times> ('thr, 'z) machine_scheme) \<Rightarrow> bool" where
  "keeps_table resume \<longleftrightarrow>
     (\<forall>t s. pending (snd (resume t s)) = pending s \<and> mask (snd (resume t s)) = mask s)"

text \<open>
  The slots of a block that are pending and claimed by the core, in ascending order.
\<close>

definition owned_pending :: "nat \<Rightarrow> nat \<Rightarrow> ('thr, 'z) machine_scheme \<Rightarrow> nat list" where
  "owned_pending core block s =
     map (\<lambda>i. block * 32 + i)
       (filter (\<lambda>i. bit (pending s ! block) i \<and> bit (mask s ! core ! block) i) [0..<32])"

text \<open>Resuming the watchers of a list of slots, one slot after the other.\<close>

definition resume_slots ::
  "('thr \<Rightarrow> ('thr, 'z) machine_scheme \<Rightarrow> bool \<times> ('thr, 'z) machine_scheme)
     \<Rightarrow> nat list \<Rightarrow> bool \<times> ('thr, 'z) machine_scheme \<Rightarrow> bool \<times> ('thr, 'z) machine_scheme" where
  "resume_slots resume slots = fold (\<lambda>e (wake, s). resume_watchers resume e wake s) slots"

text \<open>
  One block of a pass, told by slots: drain the block's pending word, then resume the
  watchers of the slots that were pending and claimed by the core in the state \<open>s0\<close>
  in which the pass began.
\<close>

definition drain_block ::
  "nat \<Rightarrow> nat \<Rightarrow> ('thr, 'z) machine_scheme \<Rightarrow> ('thr, 'z) machine_scheme" where
  "drain_block core block s = snd (dispatch_snapshot core block s)"

definition pass_block ::
  "('thr \<Rightarrow> ('thr, 'z) machine_scheme \<Rightarrow> bool \<times> ('thr, 'z) machine_scheme)
     \<Rightarrow> nat \<Rightarrow> ('thr, 'z) machine_scheme \<Rightarrow> nat
     \<Rightarrow> bool \<times> ('thr, 'z) machine_scheme \<Rightarrow> bool \<times> ('thr, 'z) machine_scheme" where
  "pass_block resume core s0 block =
     (\<lambda>(wake, s). resume_slots resume (owned_pending core block s0) (wake, drain_block core block s))"

text \<open>
  An example with two cores: core 0 has claimed event 0 and core 1 event 33, both are
  pending, thread 1 watches event 0 and thread 2 event 33. The resume function of the
  example appends the resumed thread to a log and reports progress.
\<close>

definition logging_resume ::
  "nat \<Rightarrow> (nat, nat list) machine_scheme \<Rightarrow> bool \<times> (nat, nat list) machine_scheme" where
  "logging_resume t s = (True, s\<lparr>machine.more := machine.more s @ [t]\<rparr>)"

definition two_cores :: "(nat, nat list) machine_scheme" where
  "two_cores =
     \<lparr>pending = [1, 2, 0, 0], mask = [[1, 0, 0, 0], [0, 2, 0, 0]],
      watchers = (\<lambda>e. if e = 0 then Some (Thread 1) else if e = 33 then Some (Thread 2) else None),
      sev = 0, timer = 0, \<dots> = []\<rparr>"

subsection \<open>Passes without progress\<close>

text \<open>
  When a pass wakes nobody and the deadline is "no deadline", \<open>mod_dispatch\<close> executes
  \<open>__wfe()\<close> and starts the next pass. \<open>idle_step\<close> is such a pass followed by the wait,
  and \<open>idle_pass j\<close> is the pass that follows \<open>j\<close> of them.
\<close>

definition idle_step ::
  "('thr, 'z) machine_scheme platform
     \<Rightarrow> ('thr \<Rightarrow> ('thr, 'z) machine_scheme \<Rightarrow> bool \<times> ('thr, 'z) machine_scheme)
     \<Rightarrow> nat \<Rightarrow> ('thr, 'z) machine_scheme \<Rightarrow> ('thr, 'z) machine_scheme" where
  "idle_step sdk resume core s = wfe sdk (snd (dispatch_pass resume core s))"

definition idle_pass ::
  "('thr, 'z) machine_scheme platform
     \<Rightarrow> ('thr \<Rightarrow> ('thr, 'z) machine_scheme \<Rightarrow> bool \<times> ('thr, 'z) machine_scheme)
     \<Rightarrow> nat \<Rightarrow> nat \<Rightarrow> ('thr, 'z) machine_scheme \<Rightarrow> bool \<times> ('thr, 'z) machine_scheme" where
  "idle_pass sdk resume core j s = dispatch_pass resume core ((idle_step sdk resume core ^^ j) s)"

text \<open>
  An example platform in the manner of the Pico SDK: \<open>nil_time\<close> is 0,
  \<open>at_the_end_of_time\<close> is \<open>INT64_MAX\<close>, and \<open>time_reached\<close> compares with the timer.
  While the core waits in \<open>__wfe()\<close> the timer advances by one, and at time 1 an
  interrupt handler sets event 0 pending. In the example state core 0 has claimed
  event 0 and thread 1 watches it; the example resume function always reports
  progress.
\<close>

definition example_platform :: "nat machine platform" where
  "example_platform =
     \<lparr>is_nil_time = (\<lambda>t. t = 0),
      is_at_the_end_of_time = (\<lambda>t. t = 0x7FFFFFFFFFFFFFFF),
      time_reached = (\<lambda>t s. t \<le> timer s),
      best_effort_wfe_or_timeout = (\<lambda>t s. s\<lparr>timer := t\<rparr>),
      wfe = (\<lambda>s. if timer s = 1 then s\<lparr>pending := [1, 0, 0, 0], timer := 2\<rparr>
                 else s\<lparr>timer := timer s + 1\<rparr>)\<rparr>"

definition waiting0 :: "nat machine" where
  "waiting0 = claimed0\<lparr>watchers := (\<lambda>e. if e = 0 then Some (Thread 1) else None)\<rparr>"

definition always_progress :: "nat \<Rightarrow> nat machine \<Rightarrow> bool \<times> nat machine" where
  "always_progress t s = (True, s)"

subsection \<open>Sequences of operations\<close>

text \<open>Every pending slot is claimed by some core.\<close>

definition pending_claimed :: "('thr, 'z) machine_scheme \<Rightarrow> bool" where
  "pending_claimed s = list_all (\<lambda>e. is_pending s e \<longrightarrow> is_claimed s e) [0..<NUM_EVENTS]"

text \<open>
  The states reached from \<open>s0\<close> by claim, unclaim, set, clear and dispatch passes, in
  any order and on any core. When \<open>disciplined\<close> holds, only sequences are taken in
  which \<open>mlua_event_set\<close> is applied to events that are claimed at that moment, and
  \<open>mlua_event_unclaim\<close> to events whose pending bit is clear.
\<close>

inductive reachable ::
  "bool \<Rightarrow> ('thr \<Rightarrow> ('thr, 'z) machine_scheme \<Rightarrow> bool \<times> ('thr, 'z) machine_scheme)
     \<Rightarrow> ('thr, 'z) machine_scheme \<Rightarrow> ('thr, 'z) machine_scheme \<Rightarrow> bool"
  for disciplined resume s0 where
  start: "reachable disciplined resume s0 s0"
| claim:
    "reachable disciplined resume s0 s \<Longrightarrow> core < length (mask s) \<Longrightarrow>
     reachable disciplined resume s0 (snd (snd (mlua_event_claim core ev s)))"
| unclaim:
    "reachable disciplined resume s0 s \<Longrightarrow> core < length (mask s) \<Longrightarrow>
     (disciplined \<Longrightarrow> e < NUM_EVENTS \<Longrightarrow> \<not> is_pending s e) \<Longrightarrow>
     reachable disciplined resume s0 (snd (mlua_event_unclaim unset core e s))"
| set_pending:
    "reachable disciplined resume s0 s \<Longrightarrow> mlua_event_set ev s = Some s' \<Longrightarrow>
     (disciplined \<Longrightarrow> ev < NUM_EVENTS \<Longrightarrow> is_claimed s ev) \<Longrightarrow>
     reachable disciplined resume s0 s'"
| clear_pending:
    "reachable disciplined resume s0 s \<Longrightarrow> mlua_event_clear ev s = Some s' \<Longrightarrow>
     reachable disciplined resume s0 s'"
| dispatch:
    "reachable disciplined resume s0 s \<Longrightarrow> core < length (mask s) \<Longrightarrow>
     reachable disciplined resume s0 (snd (dispatch_pass resume core s))"

definition table_ok :: "('thr, 'z) machine_scheme \<Rightarrow> bool" where
  "table_ok s \<longleftrightarrow> wf_state s \<and> pending_claimed s"

text \<open>
  Two states reached without that discipline: event 0 claimed by core 0, set pending
  and then unclaimed; and event 5 set pending without ever being claimed.
\<close>

definition dangling0 :: "nat machine" where
  "dangling0 = snd (mlua_event_unclaim 255 0 0 claimed_pending0)"

definition stray5 :: "nat machine" where
  "stray5 = the (mlua_event_set 5 (boot 2))"

text \<open>
  And a sequence that keeps the discipline: core 0 claims event 0, the event is set
  pending, a pass of dispatch on core 0 drains it, and core 0 unclaims it.
\<close>

definition drained0 :: "nat machine" where
  "drained0 = snd (dispatch_pass always_progress 0 claimed_pending0)"

definition released0 :: "nat machine" where
  "released0 = snd (mlua_event_unclaim 255 0 0 drained0)"

section \<open>Properties\<close>

subsection \<open>Auxiliary facts\<close>

lemma upt4: "[0..<4] = [0, 1, 2, 3]"
  by (simp add: upt_rec)

lemma replicate4: "replicate 4 x = [x, x, x, x]"
  by (simp add: numeral_eq_Suc)

lemma replicate2: "replicate 2 x = [x, x]"
  by (simp add: numeral_eq_Suc)

lemmas eval_simps = boot_def NUM_EVENTS_def EVENTS_SIZE_def wf_state_def replicate4 replicate2
  upt4 is_pending_def claimed_by_def is_claimed_def

lemma slot_eq_iff: "(e::nat) = ev \<longleftrightarrow> e div 32 = ev div 32 \<and> e mod 32 = ev mod 32"
  by (metis div_mult_mod_eq)

lemma bit_set_slot:
  "bit ((w::32 word) OR push_bit (n mod 32) 1) k \<longleftrightarrow> bit w k \<or> k = n mod 32"
  by (auto simp: bit_simps)

lemma bit_clear_slot:
  "bit ((w::32 word) AND NOT (push_bit (n mod 32) 1)) k \<longleftrightarrow> bit w k \<and> k \<noteq> n mod 32"
  by (auto simp: bit_simps dest: bit_imp_le_length)

lemma bit_set_slot_pow:
  "bit ((w::32 word) OR 2 ^ (n mod 32)) k \<longleftrightarrow> bit w k \<or> k = n mod 32"
  using bit_set_slot [of w n k] by simp

lemma bit_clear_slot_pow:
  "bit ((w::32 word) AND NOT (2 ^ (n mod 32))) k \<longleftrightarrow> bit w k \<and> k \<noteq> n mod 32"
  using bit_clear_slot [of w n k] by simp

lemma block_in_range: "ev < NUM_EVENTS \<Longrightarrow> ev div 32 < EVENTS_SIZE"
  by (simp add: NUM_EVENTS_def EVENTS_SIZE_def)

subsection \<open>Setting an event pending\<close>

text \<open>
  C10. \<open>mlua_event_set\<close> with a handle that is disabled or out of range (an id of
  \<open>NUM_EVENTS\<close> or more) returns with the state untouched. With a valid id it sets the
  pending bit of that id and of no other, leaves the masks and the watcher table
  alone, and issues one \<open>__sev()\<close>. On a state whose arrays have their declared
  sizes, no handle makes it index outside the pending array.
\<close>

theorem C10_set_pending:
  "(NUM_EVENTS \<le> ev \<longrightarrow> mlua_event_set ev s = Some s) \<and>
   (wf_state s \<longrightarrow> mlua_event_set ev s \<noteq> None) \<and>
   (wf_state s \<and> ev < NUM_EVENTS \<longrightarrow>
      (\<exists>s'. mlua_event_set ev s = Some s' \<and>
            (\<forall>e < NUM_EVENTS. is_pending s' e \<longleftrightarrow> e = ev \<or> is_pending s e) \<and>
            length (pending s') = length (pending s) \<and>
            mask s' = mask s \<and> watchers s' = watchers s \<and>
            sev s' = Suc (sev s) \<and> timer s' = timer s \<and> machine.more s' = machine.more s))"
proof (intro conjI impI)
  show "mlua_event_set ev s = Some s" if "NUM_EVENTS \<le> ev"
    using that by (simp add: mlua_event_set_def)
  show "mlua_event_set ev s \<noteq> None" if "wf_state s"
    using that block_in_range [of ev] by (simp add: mlua_event_set_def wf_state_def)
  assume a: "wf_state s \<and> ev < NUM_EVENTS"
  then have len: "ev div 32 < length (pending s)"
    using block_in_range [of ev] by (simp add: wf_state_def)
  let ?s' = "s\<lparr>pending := (pending s)[ev div 32 := pending s ! (ev div 32) OR push_bit (ev mod 32) 1],
               sev := Suc (sev s)\<rparr>"
  have eq: "mlua_event_set ev s = Some ?s'"
    using a len by (simp add: mlua_event_set_def)
  have bits: "is_pending ?s' e \<longleftrightarrow> e = ev \<or> is_pending s e" for e
    using len by (auto simp: is_pending_def nth_list_update bit_set_slot_pow slot_eq_iff [of e ev])
  show "\<exists>s'. mlua_event_set ev s = Some s' \<and>
            (\<forall>e < NUM_EVENTS. is_pending s' e \<longleftrightarrow> e = ev \<or> is_pending s e) \<and>
            length (pending s') = length (pending s) \<and>
            mask s' = mask s \<and> watchers s' = watchers s \<and>
            sev s' = Suc (sev s) \<and> timer s' = timer s \<and> machine.more s' = machine.more s"
    unfolding eq using bits by simp
qed

theorem C10_set_pending_witness:
  "wf_state (boot 2) \<and> (5::nat) < NUM_EVENTS \<and> NUM_EVENTS \<le> (200::nat) \<and>
   mlua_event_set 200 (boot 2) = Some (boot 2) \<and>
   (\<exists>s'. mlua_event_set 5 (boot 2) = Some s' \<and> is_pending s' 5 \<and> sev s' = 1)"
proof -
  have wf: "wf_state (boot 2)" and lt: "(5::nat) < NUM_EVENTS" and ge: "NUM_EVENTS \<le> (200::nat)"
    by (simp_all add: eval_simps)
  from C10_set_pending [of 200 "boot 2"] ge
  have noop: "mlua_event_set 200 (boot 2) = Some (boot 2)" by simp
  from C10_set_pending [of 5 "boot 2"] wf lt
  obtain s' where s': "mlua_event_set 5 (boot 2) = Some s'"
    and bits: "\<forall>e < NUM_EVENTS. is_pending s' e \<longleftrightarrow> e = 5 \<or> is_pending (boot 2) e"
    and sv: "sev s' = Suc (sev (boot 2))"
    by blast
  from bits lt have "is_pending s' 5" by simp
  moreover from sv have "sev s' = 1" by (simp add: boot_def)
  ultimately show ?thesis using wf lt ge noop s' by simp
qed

subsection \<open>Waiting\<close>

text \<open>
  C7. \<open>mlua_event_wait\<close> on a handle that is unset or out of the range of ids raises
  "wait for unclaimed event" at once: whatever the try function is, the state is the
  one that was passed in, so the try function was not called, nothing was registered
  and the thread did not yield.
\<close>

theorem C7_wait_unclaimed:
  "NUM_EVENTS \<le> event \<Longrightarrow>
   mlua_event_wait yieldable thr event try_get index s = (Raised ''wait for unclaimed event'', s)"
  by (simp add: mlua_event_wait_def)

theorem C7_wait_unclaimed_witness:
  "NUM_EVENTS \<le> (255::nat) \<and>
   mlua_event_wait True (1::nat) 255 (\<lambda>s. (Inr 0, s\<lparr>sev := 7\<rparr>)) 0 (boot 2)
     = (Raised ''wait for unclaimed event'', boot 2)"
  using C7_wait_unclaimed [of 255 True "1::nat" "\<lambda>s. (Inr 0, s\<lparr>sev := 7\<rparr>)" 0 "boot 2"]
  by (simp add: NUM_EVENTS_def)

lemma watching_after_watch:
  "ev < NUM_EVENTS \<Longrightarrow> watching (snd (mlua_event_watch True thr ev s)) ev thr"
  by (auto simp: mlua_event_watch_def watching_def table_set_def split: option.splits watcher.splits)

lemma watch_no_error:
  "ev < NUM_EVENTS \<Longrightarrow> fst (mlua_event_watch True thr ev s) = None"
  by (auto simp: mlua_event_watch_def split: option.splits watcher.splits)

lemma not_watching_after_unwatch:
  "ev < NUM_EVENTS \<Longrightarrow> \<not> watching (mlua_event_unwatch thr ev s) ev thr"
  by (auto simp: mlua_event_unwatch_def watching_def table_unset_def split: option.splits watcher.splits)

text \<open>
  C3. For a claimed event (an id below \<open>NUM_EVENTS\<close>) and a try function that returns
  \<open>res\<close> and leaves the state \<open>s1\<close>: when \<open>res\<close> is not negative, \<open>mlua_event_wait\<close>
  returns \<open>res\<close> in the very state the try function left, with no registration and no
  yield. When \<open>res\<close> is negative, in a yieldable thread, it registers the thread as a
  watcher and yields with \<open>mlua_event_wait_2\<close> as continuation. On each resume the
  continuation calls the try function again: a negative result yields again, and any
  other result unregisters the thread and is returned.
\<close>

theorem C3_wait:
  "event < NUM_EVENTS \<and> try_get s = (Inr res, s1) \<longrightarrow>
     (0 \<le> res \<longrightarrow>
        mlua_event_wait yieldable thr event try_get index s = (Returned res, s1)) \<and>
     (res < 0 \<and> yieldable \<longrightarrow>
        mlua_event_wait yieldable thr event try_get index s =
          (Suspended (if index \<noteq> 0 then Value_at index else Yield_true) event index,
           snd (mlua_event_watch yieldable thr event s1)) \<and>
        watching (snd (mlua_event_watch yieldable thr event s1)) event thr) \<and>
     (res < 0 \<and> yieldable \<longrightarrow>
        mlua_event_wait_2 yieldable thr try_get index event s =
          (Suspended (if index \<noteq> 0 then Value_at index else Yield_true) event index, s1)) \<and>
     (0 \<le> res \<longrightarrow>
        mlua_event_wait_2 yieldable thr try_get index event s =
          (Returned res, mlua_event_unwatch thr event s1) \<and>
        \<not> watching (mlua_event_unwatch thr event s1) event thr)"
proof (intro impI, elim conjE)
  assume ev: "event < NUM_EVENTS" and t: "try_get s = (Inr res, s1)"
  have fast: "mlua_event_wait yieldable thr event try_get index s = (Returned res, s1)"
    if "0 \<le> res"
    using ev t that by (simp add: mlua_event_wait_def)
  have slow: "mlua_event_wait yieldable thr event try_get index s =
          (Suspended (if index \<noteq> 0 then Value_at index else Yield_true) event index,
           snd (mlua_event_watch yieldable thr event s1)) \<and>
        watching (snd (mlua_event_watch yieldable thr event s1)) event thr"
    if "res < 0 \<and> yieldable"
  proof -
    from that have y: yieldable and r: "res < 0" by simp_all
    obtain e s2 where w: "mlua_event_watch True thr event s1 = (e, s2)"
      by (cases "mlua_event_watch True thr event s1")
    with watch_no_error [OF ev, of thr s1] have "e = None" by simp
    with w ev t r y watching_after_watch [OF ev, of thr s1] show ?thesis
      by (simp add: mlua_event_wait_def mlua_event_wait_1_def mlua_event_suspend_def
          mlua_event_yield_def)
  qed
  have again: "mlua_event_wait_2 yieldable thr try_get index event s =
          (Suspended (if index \<noteq> 0 then Value_at index else Yield_true) event index, s1)"
    if "res < 0 \<and> yieldable"
    using t that
    by (simp add: mlua_event_wait_2_def mlua_event_wait_1_def mlua_event_suspend_def
        mlua_event_yield_def)
  have last: "mlua_event_wait_2 yieldable thr try_get index event s =
          (Returned res, mlua_event_unwatch thr event s1) \<and>
        \<not> watching (mlua_event_unwatch thr event s1) event thr"
    if "0 \<le> res"
    using t that not_watching_after_unwatch [OF ev, of thr s1]
    by (simp add: mlua_event_wait_2_def)
  from fast slow again last
  show "(0 \<le> res \<longrightarrow>
        mlua_event_wait yieldable thr event try_get index s = (Returned res, s1)) \<and>
     (res < 0 \<and> yieldable \<longrightarrow>
        mlua_event_wait yieldable thr event try_get index s =
          (Suspended (if index \<noteq> 0 then Value_at index else Yield_true) event index,
           snd (mlua_event_watch yieldable thr event s1)) \<and>
        watching (snd (mlua_event_watch yieldable thr event s1)) event thr) \<and>
     (res < 0 \<and> yieldable \<longrightarrow>
        mlua_event_wait_2 yieldable thr try_get index event s =
          (Suspended (if index \<noteq> 0 then Value_at index else Yield_true) event index, s1)) \<and>
     (0 \<le> res \<longrightarrow>
        mlua_event_wait_2 yieldable thr try_get index event s =
          (Returned res, mlua_event_unwatch thr event s1) \<and>
        \<not> watching (mlua_event_unwatch thr event s1) event thr)"
    by blast
qed

theorem C3_wait_witness:
  "(3::nat) < NUM_EVENTS \<and>
   mlua_event_wait True (7::nat) 3 (\<lambda>s. (Inr 1, s)) 0 (boot 2) = (Returned 1, boot 2) \<and>
   mlua_event_wait_2 True (7::nat) (\<lambda>s. (Inr 1, s)) 0 3 (boot 2)
     = (Returned 1, mlua_event_unwatch 7 3 (boot 2)) \<and>
   \<not> watching (mlua_event_unwatch 7 3 (boot 2)) 3 7 \<and>
   mlua_event_wait True (7::nat) 3 (\<lambda>s. (Inr (- 1), s)) 0 (boot 2)
     = (Suspended Yield_true 3 0, snd (mlua_event_watch True 7 3 (boot 2))) \<and>
   watching (snd (mlua_event_watch True 7 3 (boot 2))) 3 7 \<and>
   mlua_event_wait_2 True (7::nat) (\<lambda>s. (Inr (- 1), s)) 0 3 (boot 2)
     = (Suspended Yield_true 3 0, boot 2)"
  using C3_wait [where event = 3 and try_get = "\<lambda>s. (Inr 1, s)" and s = "boot 2" and res = 1
      and ?s1.0 = "boot 2" and yieldable = True and thr = "7::nat" and index = 0]
    C3_wait [where event = 3 and try_get = "\<lambda>s. (Inr (- 1), s)" and s = "boot 2"
      and res = "- 1" and ?s1.0 = "boot 2" and yieldable = True and thr = "7::nat" and index = 0]
  by (simp add: NUM_EVENTS_def)

subsection \<open>The watcher registry\<close>

lemma table_set_set: "set (table_set k t) = insert k (set t)"
  by (auto simp: table_set_def)

lemma table_set_distinct: "distinct t \<Longrightarrow> distinct (table_set k t)"
  by (simp add: table_set_def)

lemma table_set_idem: "k \<in> set t \<Longrightarrow> table_set k t = t"
  by (simp add: table_set_def)

lemma table_unset_set: "set (table_unset k t) = set t - {k}"
  by (auto simp: table_unset_def)

lemma table_unset_absent: "k \<notin> set t \<Longrightarrow> table_unset k t = t"
  by (induction t) (auto simp: table_unset_def)

lemma watchers_upd_same:
  "watchers s ev = x \<Longrightarrow> s\<lparr>watchers := (watchers s)(ev := x)\<rparr> = s"
  by (simp add: fun_upd_idem)

lemma watched1_entry: "watchers watched1 3 = Some (Thread 1)"
  by (simp add: watched1_def mlua_event_watch_def boot_def NUM_EVENTS_def)

lemma watched2_entry: "watchers watched2 3 = Some (Table [1, 2])"
  by (simp add: watched2_def mlua_event_watch_def watched1_entry NUM_EVENTS_def table_set_def)

lemma watched_last_entry: "watchers watched_last 3 = Some (Table [1])"
  by (simp add: watched_last_def mlua_event_unwatch_def watched2_entry NUM_EVENTS_def
      table_unset_def)

text \<open>
  C8. In a yieldable thread and for an id below \<open>NUM_EVENTS\<close>, \<open>mlua_event_watch\<close>
  raises nothing and follows the three storage tiers: with no entry it stores the
  thread itself; with a single other thread it stores a table holding both; with a
  table it adds the thread to the table. A thread that already watches the event
  leaves the whole state unchanged, so watching twice is watching once; afterwards the
  thread watches the event, a table still lists each thread once, and no other entry,
  mask or pending bit has changed.
\<close>

theorem C8_watch:
  "ev < NUM_EVENTS \<longrightarrow>
     (\<exists>s'. mlua_event_watch True thr ev s = (None, s') \<and>
        (watchers s ev = None \<longrightarrow> watchers s' ev = Some (Thread thr)) \<and>
        (\<forall>w. watchers s ev = Some (Thread w) \<and> w \<noteq> thr \<longrightarrow>
             watchers s' ev = Some (Table [w, thr])) \<and>
        (\<forall>t. watchers s ev = Some (Table t) \<longrightarrow>
             (\<exists>t'. watchers s' ev = Some (Table t') \<and> set t' = insert thr (set t))) \<and>
        (watching s ev thr \<longrightarrow> s' = s) \<and>
        watching s' ev thr \<and>
        mlua_event_watch True thr ev s' = (None, s') \<and>
        (entry_once (watchers s ev) \<longrightarrow> entry_once (watchers s' ev)) \<and>
        (\<forall>e. e \<noteq> ev \<longrightarrow> watchers s' e = watchers s e) \<and>
        pending s' = pending s \<and> mask s' = mask s \<and> sev s' = sev s \<and> timer s' = timer s \<and>
        machine.more s' = machine.more s)"
  by (cases "watchers s ev"; cases "the (watchers s ev)")
    (auto simp: mlua_event_watch_def watching_def entry_once_def table_set_def watchers_upd_same)

theorem C8_watch_witness:
  "(3::nat) < NUM_EVENTS \<and>
   watchers (boot 2) 3 = None \<and>
   watchers (snd (mlua_event_watch True 1 3 (boot 2))) 3 = Some (Thread 1) \<and>
   watchers watched1 3 = Some (Thread 1) \<and> (1::nat) \<noteq> 2 \<and>
   watchers (snd (mlua_event_watch True 2 3 watched1)) 3 = Some (Table [1, 2]) \<and>
   watchers watched2 3 = Some (Table [1, 2]) \<and>
   (\<exists>t'. watchers (snd (mlua_event_watch True 5 3 watched2)) 3 = Some (Table t') \<and>
         set t' = {1, 2, 5}) \<and>
   watching watched2 3 1 \<and> entry_once (watchers watched2 3) \<and>
   mlua_event_watch True 1 3 watched2 = (None, watched2)"
proof -
  have lt: "(3::nat) < NUM_EVENTS" by (simp add: NUM_EVENTS_def)
  have e0: "watchers (boot 2) 3 = None" by (simp add: boot_def)
  from C8_watch [of 3 1 "boot 2"] lt e0
  have a: "watchers (snd (mlua_event_watch True 1 3 (boot 2))) 3 = Some (Thread 1)"
    by auto
  from C8_watch [of 3 2 watched1] lt watched1_entry
  have b: "watchers (snd (mlua_event_watch True 2 3 watched1)) 3 = Some (Table [1, 2])"
    by auto
  from C8_watch [of 3 5 watched2] lt watched2_entry
  have c: "\<exists>t'. watchers (snd (mlua_event_watch True 5 3 watched2)) 3 = Some (Table t') \<and>
         set t' = {1, 2, 5}"
    by auto
  have w: "watching watched2 3 1" and o: "entry_once (watchers watched2 3)"
    by (simp_all add: watching_def entry_once_def watched2_entry)
  from C8_watch [of 3 1 watched2] lt w
  have d: "mlua_event_watch True 1 3 watched2 = (None, watched2)"
    by auto
  from lt e0 a b c d w o watched1_entry watched2_entry show ?thesis by simp
qed

text \<open>
  C9 as stated fails: removing the last thread of a watcher table leaves an empty table
  as the entry, not an absent entry. Threads 1 and 2 watch event 3, thread 2 unwatches,
  then thread 1 unwatches.
\<close>

theorem C9_unwatch_counterexample:
  "watchers watched_last 3 = Some (Table [1]) \<and>
   watching watched_last 3 1 \<and>
   watchers (mlua_event_unwatch 1 3 watched_last) 3 = Some (Table []) \<and>
   watchers (mlua_event_unwatch 1 3 watched_last) 3 \<noteq> None"
  by (simp add: watching_def mlua_event_unwatch_def watched_last_entry NUM_EVENTS_def
      table_unset_def)

text \<open>
  C9, amended. When the entry of an event is a watcher table, \<open>mlua_event_unwatch\<close>
  removes the thread from the table and keeps the table as the entry, also when it
  becomes empty; nothing else changes. Unwatching a thread that is not registered for
  the event leaves the state unchanged.
\<close>

theorem C9_unwatch:
  "(ev < NUM_EVENTS \<and> watchers s ev = Some (Table t) \<longrightarrow>
      watchers (mlua_event_unwatch thr ev s) = (watchers s)(ev := Some (Table (table_unset thr t))) \<and>
      set (table_unset thr t) = set t - {thr} \<and>
      watchers (mlua_event_unwatch thr ev s) ev \<noteq> None \<and>
      pending (mlua_event_unwatch thr ev s) = pending s \<and>
      mask (mlua_event_unwatch thr ev s) = mask s) \<and>
   (\<not> watching s ev thr \<longrightarrow> mlua_event_unwatch thr ev s = s)"
  by (cases "watchers s ev"; cases "the (watchers s ev)")
    (auto simp: mlua_event_unwatch_def watching_def table_unset_set table_unset_absent
      watchers_upd_same)

theorem C9_unwatch_witness:
  "(3::nat) < NUM_EVENTS \<and> watchers watched_last 3 = Some (Table [1]) \<and>
   watchers (mlua_event_unwatch 1 3 watched_last) 3 = Some (Table []) \<and>
   \<not> watching watched_last 3 7 \<and> mlua_event_unwatch 7 3 watched_last = watched_last"
proof -
  have lt: "(3::nat) < NUM_EVENTS" by (simp add: NUM_EVENTS_def)
  have nw: "\<not> watching watched_last 3 7"
    by (simp add: watching_def watched_last_entry)
  from C9_unwatch [of 3 watched_last "[1]" 1] lt watched_last_entry
  have a: "watchers (mlua_event_unwatch 1 3 watched_last) 3 = Some (Table [])"
    by (simp add: table_unset_def)
  from C9_unwatch [of 3 watched_last "[1]" 7] nw
  have b: "mlua_event_unwatch 7 3 watched_last = watched_last"
    by simp
  from lt nw a b watched_last_entry show ?thesis by simp
qed

subsection \<open>Releasing an event\<close>

lemma upt32: "[0..<32] = [0, 1, 2, 3, 4, 5, 6, 7, 8, 9, 10, 11, 12, 13, 14, 15, 16, 17, 18,
    19, 20, 21, 22, 23, 24, 25, 26, 27, 28, 29, 30, 31]"
  by (simp add: upt_rec)

lemma claimed0_eq:
  "claimed0 = \<lparr>pending = [0, 0, 0, 0], mask = [[1, 0, 0, 0], [0, 0, 0, 0]],
      watchers = (\<lambda>_. None), sev = 0, timer = 0\<rparr>"
  by (simp add: claimed0_def mlua_event_claim_def eval_simps union_mask_def builtin_ffs_def upt32)

lemma claimed_pending0_eq:
  "claimed_pending0 = \<lparr>pending = [1, 0, 0, 0], mask = [[1, 0, 0, 0], [0, 0, 0, 0]],
      watchers = (\<lambda>_. None), sev = 1, timer = 0\<rparr>"
  by (simp add: claimed_pending0_def claimed0_eq mlua_event_set_def NUM_EVENTS_def)

text \<open>
  C4 as stated fails: \<open>mlua_event_unclaim\<close> does not touch the pending bitmap. Core 0
  claims event 0, the event is set pending, and core 0 unclaims it: the claim is gone
  and the pending bit is still set.
\<close>

theorem C4_unclaim_counterexample:
  "claimed_by claimed_pending0 0 0 \<and> is_pending claimed_pending0 0 \<and>
   fst (mlua_event_unclaim 255 0 0 claimed_pending0) = 255 \<and>
   \<not> claimed_by (snd (mlua_event_unclaim 255 0 0 claimed_pending0)) 0 0 \<and>
   is_pending (snd (mlua_event_unclaim 255 0 0 claimed_pending0)) 0"
  by (simp add: claimed_pending0_eq mlua_event_unclaim_def eval_simps)

text \<open>
  C4, amended. \<open>mlua_event_unclaim\<close> on an event claimed by the calling core clears
  that bit of the core's mask and no other bit of any mask, sets the handle to the
  unset value, removes the event's entry from the watcher table and leaves the pending
  bitmap as it was. On a handle out of range, or an event the calling core has not
  claimed, it changes nothing: the handle and the state are returned as they were.
\<close>

theorem C4_unclaim:
  "(wf_state s \<and> core < length (mask s) \<and> e < NUM_EVENTS \<and> claimed_by s core e \<longrightarrow>
      (\<exists>s'. mlua_event_unclaim unset core e s = (unset, s') \<and>
         (\<forall>c e'. c < length (mask s) \<and> e' < NUM_EVENTS \<longrightarrow>
             (claimed_by s' c e' \<longleftrightarrow> claimed_by s c e' \<and> \<not> (c = core \<and> e' = e))) \<and>
         wf_state s' \<and> length (mask s') = length (mask s) \<and>
         watchers s' = (watchers s)(e := None) \<and>
         pending s' = pending s \<and> sev s' = sev s \<and> timer s' = timer s \<and>
         machine.more s' = machine.more s)) \<and>
   (NUM_EVENTS \<le> e \<or> \<not> claimed_by s core e \<longrightarrow> mlua_event_unclaim unset core e s = (e, s))"
proof (intro conjI impI, elim conjE)
  assume wf: "wf_state s" and c: "core < length (mask s)" and e: "e < NUM_EVENTS"
    and cl: "claimed_by s core e"
  let ?m = "mask s ! core ! (e div 32) AND NOT (push_bit (e mod 32) 1)"
  let ?s' = "s\<lparr>mask := (mask s)[core := (mask s ! core)[e div 32 := ?m]],
                watchers := (watchers s)(e := None)\<rparr>"
  have len: "e div 32 < length (mask s ! core)"
    using wf c block_in_range [OF e] by (simp add: wf_state_def list_all_length)
  have ne: "?m \<noteq> mask s ! core ! (e div 32)"
  proof
    assume "?m = mask s ! core ! (e div 32)"
    then have "bit ?m (e mod 32) = bit (mask s ! core ! (e div 32)) (e mod 32)" by simp
    with cl show False by (simp add: claimed_by_def bit_clear_slot bit_clear_slot_pow)
  qed
  have eq: "mlua_event_unclaim unset core e s = (unset, ?s')"
    using e ne by (simp add: mlua_event_unclaim_def Let_def)
  have bits: "claimed_by ?s' c e' \<longleftrightarrow> claimed_by s c e' \<and> \<not> (c = core \<and> e' = e)"
    if "c < length (mask s)" for c e'
    using that c len
    by (auto simp: claimed_by_def nth_list_update bit_clear_slot_pow slot_eq_iff [of e' e]
        split: if_splits)
  have wf': "wf_state ?s'"
    using wf c by (auto simp: wf_state_def list_all_length nth_list_update)
  show "\<exists>s'. mlua_event_unclaim unset core e s = (unset, s') \<and>
         (\<forall>c e'. c < length (mask s) \<and> e' < NUM_EVENTS \<longrightarrow>
             (claimed_by s' c e' \<longleftrightarrow> claimed_by s c e' \<and> \<not> (c = core \<and> e' = e))) \<and>
         wf_state s' \<and> length (mask s') = length (mask s) \<and>
         watchers s' = (watchers s)(e := None) \<and>
         pending s' = pending s \<and> sev s' = sev s \<and> timer s' = timer s \<and>
         machine.more s' = machine.more s"
    unfolding eq using bits wf' by simp
next
  assume "NUM_EVENTS \<le> e \<or> \<not> claimed_by s core e"
  then show "mlua_event_unclaim unset core e s = (e, s)"
  proof
    assume "NUM_EVENTS \<le> e"
    then show ?thesis by (simp add: mlua_event_unclaim_def)
  next
    assume n: "\<not> claimed_by s core e"
    have "mask s ! core ! (e div 32) AND NOT (push_bit (e mod 32) 1) = mask s ! core ! (e div 32)"
      by (rule bit_word_eqI) (use n in \<open>auto simp: bit_clear_slot bit_clear_slot_pow claimed_by_def\<close>)
    then show ?thesis by (simp add: mlua_event_unclaim_def Let_def)
  qed
qed

theorem C4_unclaim_witness:
  "wf_state claimed_pending0 \<and> (0::nat) < length (mask claimed_pending0) \<and>
   (0::nat) < NUM_EVENTS \<and> claimed_by claimed_pending0 0 0 \<and>
   \<not> claimed_by claimed_pending0 1 0 \<and>
   fst (mlua_event_unclaim 255 0 0 claimed_pending0) = 255 \<and>
   pending (snd (mlua_event_unclaim 255 0 0 claimed_pending0)) = pending claimed_pending0 \<and>
   mlua_event_unclaim 255 1 0 claimed_pending0 = (0, claimed_pending0)"
proof -
  have f: "wf_state claimed_pending0" "(0::nat) < length (mask claimed_pending0)"
    "(0::nat) < NUM_EVENTS" "claimed_by claimed_pending0 0 0" "\<not> claimed_by claimed_pending0 1 0"
    by (simp_all add: claimed_pending0_eq eval_simps)
  from C4_unclaim [of claimed_pending0 0 0 255] f
  have a: "fst (mlua_event_unclaim 255 0 0 claimed_pending0) = 255 \<and>
     pending (snd (mlua_event_unclaim 255 0 0 claimed_pending0)) = pending claimed_pending0"
    by auto
  from C4_unclaim [of claimed_pending0 1 0 255] f
  have b: "mlua_event_unclaim 255 1 0 claimed_pending0 = (0, claimed_pending0)"
    by simp
  from f a b show ?thesis by simp
qed

subsection \<open>Claiming an event\<close>

lemma fold_or_bit:
  "bit (fold (\<lambda>m acc. acc OR m ! b) ms (a::32 word)) k \<longleftrightarrow> bit a k \<or> (\<exists>m\<in>set ms. bit (m ! b) k)"
  by (induction ms arbitrary: a) (auto simp: bit_or_iff)

lemma union_mask_bit: "bit (union_mask ms b) k \<longleftrightarrow> (\<exists>m\<in>set ms. bit (m ! b) k)"
  by (simp add: union_mask_def fold_or_bit)

lemma is_claimed_union:
  "is_claimed s ev \<longleftrightarrow> bit (union_mask (mask s) (ev div 32)) (ev mod 32)"
  by (simp add: is_claimed_def union_mask_bit list_ex_iff)

lemma is_claimed_iff:
  "is_claimed s ev \<longleftrightarrow> (\<exists>c < length (mask s). claimed_by s c ev)"
  by (fastforce simp: is_claimed_def claimed_by_def list_ex_iff in_set_conv_nth)

lemma block_full_iff: "block_full s b \<longleftrightarrow> (\<forall>k<32. is_claimed s (b * 32 + k))"
proof
  assume "block_full s b"
  then show "\<forall>k<32. is_claimed s (b * 32 + k)"
    by (simp add: block_full_def is_claimed_union)
next
  assume a: "\<forall>k<32. is_claimed s (b * 32 + k)"
  have "union_mask (mask s) b = NOT 0"
  proof (rule bit_word_eqI)
    fix n assume "n < LENGTH(32)"
    with a have "is_claimed s (b * 32 + n)" by simp
    then show "bit (union_mask (mask s) b) n = bit (NOT 0 :: 32 word) n"
      using \<open>n < LENGTH(32)\<close> by (simp add: is_claimed_union)
  qed
  then show "block_full s b" by (simp add: block_full_def)
qed

lemma claim_blocks_full:
  "(\<And>b. k \<le> b \<Longrightarrow> b < n \<Longrightarrow> block_full s b) \<Longrightarrow>
   claim_blocks core [k..<n] ev s = (Some ''no events available'', ev, s)"
proof (induction "n - k" arbitrary: k)
  case 0
  then show ?case by simp
next
  case (Suc d)
  then have kn: "k < n" by simp
  then have full: "block_full s k" using Suc.prems by simp
  have rest: "claim_blocks core [Suc k..<n] ev s = (Some ''no events available'', ev, s)"
    using Suc by simp
  from full have "builtin_ffs (NOT (union_mask (mask s) k)) = 0"
    by (simp add: ffs_zero_iff block_full_def)
  with kn rest show ?case
    by (simp add: upt_conv_Cons)
qed

lemma claim_blocks_found:
  "k \<le> b \<Longrightarrow> b < n \<Longrightarrow> (\<And>b'. k \<le> b' \<Longrightarrow> b' < b \<Longrightarrow> block_full s b') \<Longrightarrow>
   builtin_ffs (NOT (union_mask (mask s) b)) = Suc i \<Longrightarrow>
   claim_blocks core [k..<n] ev s =
     (None, b * 32 + i,
      s\<lparr>mask := (mask s)[core := (mask s ! core)[b := mask s ! core ! b OR push_bit i 1]]\<rparr>)"
proof (induction "b - k" arbitrary: k)
  case 0
  then have "k = b" by simp
  with 0 show ?case by (simp add: upt_conv_Cons)
next
  case (Suc d)
  then have kb: "k < b" by simp
  then have full: "block_full s k" using Suc.prems by simp
  then have z: "builtin_ffs (NOT (union_mask (mask s) k)) = 0"
    by (simp add: ffs_zero_iff block_full_def)
  have "claim_blocks core [Suc k..<n] ev s =
     (None, b * 32 + i,
      s\<lparr>mask := (mask s)[core := (mask s ! core)[b := mask s ! core ! b OR push_bit i 1]]\<rparr>)"
    using Suc by simp
  with z kb Suc.prems show ?case by (simp add: upt_conv_Cons)
qed

lemma mask_row_length:
  "wf_state s \<Longrightarrow> c < length (mask s) \<Longrightarrow> length (mask s ! c) = EVENTS_SIZE"
  by (simp add: wf_state_def list_all_length)

lemma claim_lowest:
  assumes wf: "wf_state s" and c: "core < length (mask s)" and ev: "NUM_EVENTS \<le> ev"
    and sl: "slot < NUM_EVENTS" and free: "\<not> is_claimed s slot"
    and low: "\<And>j. j < slot \<Longrightarrow> is_claimed s j"
  shows "mlua_event_claim core ev s =
     (None, slot,
      s\<lparr>mask := (mask s)[core := (mask s ! core)[slot div 32 :=
                 mask s ! core ! (slot div 32) OR push_bit (slot mod 32) 1]]\<rparr>)"
proof -
  let ?b = "slot div 32" and ?i = "slot mod 32"
  have b: "?b < EVENTS_SIZE" using sl by (rule block_in_range)
  have full: "block_full s b'" if "b' < ?b" for b'
  proof -
    have "is_claimed s (b' * 32 + k)" if "k < 32" for k
    proof (rule low)
      from \<open>b' < ?b\<close> have "Suc b' \<le> ?b" by simp
      then have "Suc b' * 32 \<le> ?b * 32" by (rule mult_le_mono1)
      also have "\<dots> \<le> slot" by simp
      finally show "b' * 32 + k < slot" using that by simp
    qed
    then show ?thesis by (simp add: block_full_iff)
  qed
  have "builtin_ffs (NOT (union_mask (mask s) ?b)) = Suc ?i"
  proof -
    have "\<not> bit (union_mask (mask s) ?b) ?i"
      using free by (simp add: is_claimed_union)
    moreover have "bit (union_mask (mask s) ?b) j" if "j < ?i" for j
    proof -
      have "?b * 32 + j < slot" using that div_mult_mod_eq [of slot 32] by arith
      then have "is_claimed s (?b * 32 + j)" by (rule low)
      moreover have "j < 32" using that by (simp add: less_trans [OF that])
      ultimately show ?thesis by (simp add: is_claimed_union)
    qed
    ultimately show ?thesis
      by (simp add: ffs_Suc_iff bit_not_iff)
  qed
  from claim_blocks_found [OF _ b _ this, of 0 core ev] full
  have "claim_blocks core [0..<EVENTS_SIZE] ev s =
     (None, ?b * 32 + ?i,
      s\<lparr>mask := (mask s)[core := (mask s ! core)[?b := mask s ! core ! ?b OR push_bit ?i 1]]\<rparr>)"
    by simp
  with ev show ?thesis by (simp add: mlua_event_claim_def)
qed

lemma claim_exhausted:
  assumes ev: "NUM_EVENTS \<le> ev" and all: "\<And>slot. slot < NUM_EVENTS \<Longrightarrow> is_claimed s slot"
  shows "mlua_event_claim core ev s = (Some ''no events available'', ev, s)"
proof -
  have "block_full s b" if "b < EVENTS_SIZE" for b
  proof -
    have "is_claimed s (b * 32 + k)" if "k < 32" for k
      using that \<open>b < EVENTS_SIZE\<close> by (intro all) (simp add: EVENTS_SIZE_def NUM_EVENTS_def)
    then show ?thesis by (simp add: block_full_iff)
  qed
  then have "claim_blocks core [0..<EVENTS_SIZE] ev s = (Some ''no events available'', ev, s)"
    by (intro claim_blocks_full) simp
  with ev show ?thesis by (simp add: mlua_event_claim_def)
qed

lemma claimed_by_set_bit:
  assumes "wf_state s" "core < length (mask s)" "slot < NUM_EVENTS" "c < length (mask s)"
  shows "claimed_by
      (s\<lparr>mask := (mask s)[core := (mask s ! core)[slot div 32 :=
                 mask s ! core ! (slot div 32) OR push_bit (slot mod 32) 1]]\<rparr>) c e
    \<longleftrightarrow> claimed_by s c e \<or> (c = core \<and> e = slot)"
  using assms mask_row_length [of s core] block_in_range [of slot]
  by (auto simp: claimed_by_def nth_list_update bit_set_slot_pow slot_eq_iff [of e slot]
      split: if_splits)

lemma claimed_by_clear_bit:
  assumes "wf_state s" "core < length (mask s)" "slot < NUM_EVENTS" "c < length (mask s)"
  shows "claimed_by
      (s\<lparr>mask := (mask s)[core := (mask s ! core)[slot div 32 :=
                 mask s ! core ! (slot div 32) AND NOT (push_bit (slot mod 32) 1)]],
         watchers := w\<rparr>) c e
    \<longleftrightarrow> claimed_by s c e \<and> \<not> (c = core \<and> e = slot)"
  using assms mask_row_length [of s core] block_in_range [of slot]
  by (auto simp: claimed_by_def nth_list_update bit_clear_slot_pow slot_eq_iff [of e slot]
      split: if_splits)

lemma wf_state_mask_update:
  "wf_state s \<Longrightarrow> core < length (mask s) \<Longrightarrow>
   wf_state (s\<lparr>mask := (mask s)[core := (mask s ! core)[b := w]]\<rparr>)"
  by (auto simp: wf_state_def list_all_length nth_list_update)

lemma unclaim_owned:
  assumes e: "e < NUM_EVENTS" and cl: "claimed_by s core e"
  shows "mlua_event_unclaim unset core e s =
     (unset,
      s\<lparr>mask := (mask s)[core := (mask s ! core)[e div 32 :=
                 mask s ! core ! (e div 32) AND NOT (push_bit (e mod 32) 1)]],
        watchers := (watchers s)(e := None)\<rparr>)"
proof -
  let ?m = "mask s ! core ! (e div 32) AND NOT (push_bit (e mod 32) 1)"
  have "?m \<noteq> mask s ! core ! (e div 32)"
  proof
    assume "?m = mask s ! core ! (e div 32)"
    then have "bit ?m (e mod 32) = bit (mask s ! core ! (e div 32)) (e mod 32)" by simp
    with cl show False by (simp add: claimed_by_def bit_clear_slot bit_clear_slot_pow)
  qed
  with e show ?thesis by (simp add: mlua_event_unclaim_def Let_def)
qed

lemma unclaim_not_owned:
  assumes "NUM_EVENTS \<le> e \<or> \<not> claimed_by s core e"
  shows "mlua_event_unclaim unset core e s = (e, s)"
  using assms
proof
  assume "NUM_EVENTS \<le> e"
  then show ?thesis by (simp add: mlua_event_unclaim_def)
next
  assume n: "\<not> claimed_by s core e"
  have "mask s ! core ! (e div 32) AND NOT (push_bit (e mod 32) 1) = mask s ! core ! (e div 32)"
    by (rule bit_word_eqI)
      (use n in \<open>auto simp: bit_clear_slot bit_clear_slot_pow claimed_by_def\<close>)
  then show ?thesis by (simp add: mlua_event_unclaim_def Let_def)
qed

lemma full_state_wf: "wf_state full_state" and full_state_cores: "length (mask full_state) = 2"
  by (simp_all add: full_state_def wf_state_def boot_def)

lemma full_state_claimed_by:
  "slot < NUM_EVENTS \<Longrightarrow> claimed_by full_state c slot \<longleftrightarrow> c = 0" if "c < 2"
proof -
  assume "slot < NUM_EVENTS"
  then have b: "slot div 32 < EVENTS_SIZE" by (rule block_in_range)
  from \<open>c < 2\<close> have "c = 0 \<or> c = 1" by auto
  then show ?thesis
    using b by (auto simp: claimed_by_def full_state_def)
qed

lemma full_state_claimed: "slot < NUM_EVENTS \<Longrightarrow> is_claimed full_state slot"
  using full_state_claimed_by [of 0 slot]
  by (auto simp: is_claimed_iff full_state_cores intro: exI [of _ 0])

text \<open>
  C6. On a handle that is not yet claimed (its value is \<open>NUM_EVENTS\<close> or more),
  \<open>mlua_event_claim\<close> succeeds exactly when some id below \<open>NUM_EVENTS\<close> is claimed by no
  core. It then returns the lowest such id, sets that bit in the calling core's mask
  and changes no other bit, nor the pending bitmap or the watcher table. When every id
  is claimed it returns "no events available" and the handle and the state are as they
  were. When, from such a state, the only owner of an id unclaims it, the next claim
  succeeds and returns that id.
\<close>

theorem C6_claim:
  assumes wf: "wf_state s" and c: "core < length (mask s)" and ev: "NUM_EVENTS \<le> ev"
  shows
    "((\<exists>slot < NUM_EVENTS. \<not> is_claimed s slot) \<longleftrightarrow> fst (mlua_event_claim core ev s) = None) \<and>
     (\<forall>slot < NUM_EVENTS. \<not> is_claimed s slot \<and> (\<forall>j < slot. is_claimed s j) \<longrightarrow>
        (\<exists>s'. mlua_event_claim core ev s = (None, slot, s') \<and>
           (\<forall>c' e. c' < length (mask s) \<and> e < NUM_EVENTS \<longrightarrow>
              (claimed_by s' c' e \<longleftrightarrow> claimed_by s c' e \<or> (c' = core \<and> e = slot))) \<and>
           wf_state s' \<and> length (mask s') = length (mask s) \<and>
           pending s' = pending s \<and> watchers s' = watchers s \<and> sev s' = sev s \<and>
           timer s' = timer s \<and> machine.more s' = machine.more s)) \<and>
     ((\<forall>slot < NUM_EVENTS. is_claimed s slot) \<longrightarrow>
        mlua_event_claim core ev s = (Some ''no events available'', ev, s)) \<and>
     (\<forall>c0 e unset.
        (\<forall>slot < NUM_EVENTS. is_claimed s slot) \<and> c0 < length (mask s) \<and> e < NUM_EVENTS \<and>
        claimed_by s c0 e \<and> (\<forall>c' < length (mask s). c' \<noteq> c0 \<longrightarrow> \<not> claimed_by s c' e) \<longrightarrow>
        (\<exists>s'. mlua_event_claim core ev (snd (mlua_event_unclaim unset c0 e s)) = (None, e, s')))"
proof (intro conjI allI impI)
  have found: "\<exists>s'. mlua_event_claim core ev s = (None, slot, s') \<and>
           (\<forall>c' e. c' < length (mask s) \<and> e < NUM_EVENTS \<longrightarrow>
              (claimed_by s' c' e \<longleftrightarrow> claimed_by s c' e \<or> (c' = core \<and> e = slot))) \<and>
           wf_state s' \<and> length (mask s') = length (mask s) \<and>
           pending s' = pending s \<and> watchers s' = watchers s \<and> sev s' = sev s \<and>
           timer s' = timer s \<and> machine.more s' = machine.more s"
    if sl: "slot < NUM_EVENTS" and fr: "\<not> is_claimed s slot \<and> (\<forall>j < slot. is_claimed s j)"
    for slot
  proof -
    let ?s' = "s\<lparr>mask := (mask s)[core := (mask s ! core)[slot div 32 :=
                 mask s ! core ! (slot div 32) OR push_bit (slot mod 32) 1]]\<rparr>"
    have eq: "mlua_event_claim core ev s = (None, slot, ?s')"
      using fr by (intro claim_lowest [OF wf c ev sl]) simp_all
    have bits: "claimed_by ?s' c' e \<longleftrightarrow> claimed_by s c' e \<or> (c' = core \<and> e = slot)"
      if "c' < length (mask s)" for c' e
      by (rule claimed_by_set_bit [OF wf c sl that])
    have "wf_state ?s'" by (rule wf_state_mask_update [OF wf c])
    with eq bits show ?thesis by simp
  qed
  show "\<exists>s'. mlua_event_claim core ev s = (None, slot, s') \<and>
           (\<forall>c' e. c' < length (mask s) \<and> e < NUM_EVENTS \<longrightarrow>
              (claimed_by s' c' e \<longleftrightarrow> claimed_by s c' e \<or> (c' = core \<and> e = slot))) \<and>
           wf_state s' \<and> length (mask s') = length (mask s) \<and>
           pending s' = pending s \<and> watchers s' = watchers s \<and> sev s' = sev s \<and>
           timer s' = timer s \<and> machine.more s' = machine.more s"
    if "slot < NUM_EVENTS" "\<not> is_claimed s slot \<and> (\<forall>j < slot. is_claimed s j)" for slot
    using that by (rule found)
  show full: "mlua_event_claim core ev s = (Some ''no events available'', ev, s)"
    if "\<forall>slot < NUM_EVENTS. is_claimed s slot"
    using that by (intro claim_exhausted [OF ev]) simp
  show "(\<exists>slot < NUM_EVENTS. \<not> is_claimed s slot) \<longleftrightarrow> fst (mlua_event_claim core ev s) = None"
  proof
    assume "\<exists>slot < NUM_EVENTS. \<not> is_claimed s slot"
    then obtain slot where "slot < NUM_EVENTS \<and> \<not> is_claimed s slot"
      and least: "\<forall>j < slot. \<not> (j < NUM_EVENTS \<and> \<not> is_claimed s j)"
      using exists_least_iff [of "\<lambda>x. x < NUM_EVENTS \<and> \<not> is_claimed s x"] by blast
    then have "slot < NUM_EVENTS" "\<not> is_claimed s slot \<and> (\<forall>j < slot. is_claimed s j)"
      by auto
    from found [OF this] show "fst (mlua_event_claim core ev s) = None" by auto
  next
    assume ok: "fst (mlua_event_claim core ev s) = None"
    show "\<exists>slot < NUM_EVENTS. \<not> is_claimed s slot"
    proof (rule ccontr)
      assume "\<not> (\<exists>slot < NUM_EVENTS. \<not> is_claimed s slot)"
      then have "\<forall>slot < NUM_EVENTS. is_claimed s slot" by simp
      from full [OF this] ok show False by simp
    qed
  qed
next
  fix c0 e unset
  assume a: "(\<forall>slot < NUM_EVENTS. is_claimed s slot) \<and> c0 < length (mask s) \<and> e < NUM_EVENTS \<and>
        claimed_by s c0 e \<and> (\<forall>c' < length (mask s). c' \<noteq> c0 \<longrightarrow> \<not> claimed_by s c' e)"
  let ?s1 = "s\<lparr>mask := (mask s)[c0 := (mask s ! c0)[e div 32 :=
                 mask s ! c0 ! (e div 32) AND NOT (push_bit (e mod 32) 1)]],
        watchers := (watchers s)(e := None)\<rparr>"
  from a have c0: "c0 < length (mask s)" and e: "e < NUM_EVENTS" and own: "claimed_by s c0 e"
    by simp_all
  have un: "snd (mlua_event_unclaim unset c0 e s) = ?s1"
    by (simp add: unclaim_owned [OF e own])
  have wf1: "wf_state ?s1"
    using wf_state_mask_update [OF wf c0] by (simp add: wf_state_def)
  have c1: "core < length (mask ?s1)" using c by simp
  have bits: "claimed_by ?s1 c' x \<longleftrightarrow> claimed_by s c' x \<and> \<not> (c' = c0 \<and> x = e)"
    if "c' < length (mask s)" for c' x
    by (rule claimed_by_clear_bit [OF wf c0 e that])
  have free: "\<not> is_claimed ?s1 e"
    using a bits by (auto simp: is_claimed_iff)
  have low: "is_claimed ?s1 j" if "j < e" for j
  proof -
    from that e have "j < NUM_EVENTS" by simp
    with a have "is_claimed s j" by simp
    then obtain c' where "c' < length (mask s)" "claimed_by s c' j"
      by (auto simp: is_claimed_iff)
    with bits [of c' j] that have "c' < length (mask ?s1) \<and> claimed_by ?s1 c' j" by simp
    then show ?thesis unfolding is_claimed_iff by blast
  qed
  from claim_lowest [OF wf1 c1 ev e free low]
  show "\<exists>s'. mlua_event_claim core ev (snd (mlua_event_unclaim unset c0 e s)) = (None, e, s')"
    unfolding un by blast
qed

theorem C6_claim_witness:
  "wf_state (boot 2) \<and> (1::nat) < length (mask (boot 2)) \<and> NUM_EVENTS \<le> (255::nat) \<and>
   fst (mlua_event_claim 1 255 (boot 2)) = None \<and>
   fst (snd (mlua_event_claim 1 255 (boot 2))) = 0 \<and>
   wf_state full_state \<and> (1::nat) < length (mask full_state) \<and>
   mlua_event_claim 1 255 full_state = (Some ''no events available'', 255, full_state) \<and>
   claimed_by full_state 0 77 \<and> \<not> claimed_by full_state 1 77 \<and>
   fst (mlua_event_claim 1 255 (snd (mlua_event_unclaim 255 0 77 full_state))) = None \<and>
   fst (snd (mlua_event_claim 1 255 (snd (mlua_event_unclaim 255 0 77 full_state)))) = 77"
proof -
  have b: "wf_state (boot 2)" "(1::nat) < length (mask (boot 2))" "NUM_EVENTS \<le> (255::nat)"
    "(0::nat) < NUM_EVENTS" "(77::nat) < NUM_EVENTS"
    by (simp_all add: eval_simps)
  have free0: "\<not> is_claimed (boot 2) 0 \<and> (\<forall>j < (0::nat). is_claimed (boot 2) j)"
    by (simp add: eval_simps)
  from C6_claim [OF b(1) b(2) b(3)] free0 b(4)
  obtain s' where first: "mlua_event_claim 1 255 (boot 2) = (None, 0, s')"
    by blast
  have f: "(1::nat) < length (mask full_state)" by (simp add: full_state_cores)
  have all: "\<forall>slot < NUM_EVENTS. is_claimed full_state slot"
    by (simp add: full_state_claimed)
  from C6_claim [OF full_state_wf f b(3)] all
  have none: "mlua_event_claim 1 255 full_state = (Some ''no events available'', 255, full_state)"
    by blast
  have own: "claimed_by full_state 0 77" and other: "\<not> claimed_by full_state 1 77"
    using full_state_claimed_by [of 0 77] full_state_claimed_by [of 1 77] b(5) by simp_all
  have only: "\<forall>c' < length (mask full_state). c' \<noteq> 0 \<longrightarrow> \<not> claimed_by full_state c' 77"
    using full_state_claimed_by [of _ 77] b(5) by (simp add: full_state_cores)
  have "(0::nat) < length (mask full_state)" by (simp add: full_state_cores)
  with C6_claim [OF full_state_wf f b(3)] all b(5) own only
  obtain s'' where again:
    "mlua_event_claim 1 255 (snd (mlua_event_unclaim 255 0 77 full_state)) = (None, 77, s'')"
    by blast
  from b first f none own other again full_state_wf show ?thesis by simp
qed

subsection \<open>One pass of dispatch\<close>

lemma set_bits_zero: "set_bits 0 = []"
  by (simp add: set_bits_def)

lemma set_bits_lowest:
  assumes i: "i < 32" and b: "bit w i" and low: "\<forall>j<i. \<not> bit w j"
  shows "set_bits w = i # set_bits (w AND NOT (push_bit i 1))"
proof -
  let ?w' = "w AND NOT (push_bit i 1)"
  have bits: "bit ?w' j \<longleftrightarrow> bit w j \<and> j \<noteq> i" for j
    by (auto simp: bit_simps dest: bit_imp_le_length)
  have split: "[0..<32] = [0..<i] @ i # [Suc i..<32]"
    using i by (metis le_add1 less_imp_add_positive upt_add_eq_append upt_conv_Cons zero_le add_0)
  have a: "filter (bit w) [0..<i] = []" "filter (bit ?w') [0..<i] = []"
    using low by (auto simp: filter_empty_conv bits simp del: push_bit_of_1)
  have c: "filter (bit ?w') [Suc i..<32] = filter (bit w) [Suc i..<32]"
    by (rule filter_cong) (auto simp: bits simp del: push_bit_of_1)
  have "filter (bit w) ([0..<i] @ i # [Suc i..<32]) =
      i # filter (bit ?w') ([0..<i] @ i # [Suc i..<32])"
    by (simp add: a c b bits del: push_bit_of_1)
  then show ?thesis
    unfolding set_bits_def split [symmetric] .
qed

lemma dispatch_active_fold:
  "dispatch_active resume block active wake s =
     resume_slots resume (map (\<lambda>i. block * 32 + i) (set_bits active)) (wake, s)"
proof (induction resume block active wake s rule: dispatch_active.induct)
  case (1 resume block active wake s)
  show ?case
  proof (cases "builtin_ffs active")
    case 0
    then have "active = 0" by (simp add: ffs_zero_iff)
    then show ?thesis
      by (simp add: dispatch_active.simps [of resume block 0] ffs_zero_iff set_bits_zero
          resume_slots_def)
  next
    case (Suc i)
    then have i: "i < 32" "bit active i" "\<forall>j<i. \<not> bit active j"
      by (simp_all add: ffs_Suc_iff)
    obtain wake1 s1 where r: "resume_watchers resume (block * 32 + i) wake s = (wake1, s1)"
      by (cases "resume_watchers resume (block * 32 + i) wake s")
    have ih: "dispatch_active resume block (active AND NOT (push_bit i 1)) wake1 s1 =
        resume_slots resume (map (\<lambda>i. block * 32 + i) (set_bits (active AND NOT (push_bit i 1))))
          (wake1, s1)"
      using "1.IH" [of "builtin_ffs active" "(wake1, s1)" wake1 s1] Suc r by simp
    have "dispatch_active resume block active wake s =
        dispatch_active resume block (active AND NOT (push_bit i 1)) wake1 s1"
      by (subst dispatch_active.simps) (simp add: Suc r del: push_bit_of_1)
    also note ih
    finally show ?thesis
      by (simp add: set_bits_lowest [OF i] resume_slots_def r del: push_bit_of_1)
  qed
qed

lemma resume_all_keeps:
  "keeps_table resume \<Longrightarrow>
   pending (snd (resume_all resume ts wake s)) = pending s \<and>
   mask (snd (resume_all resume ts wake s)) = mask s"
proof (induction ts arbitrary: wake s)
  case Nil
  then show ?case by simp
next
  case (Cons t ts)
  obtain r s1 where r: "resume t s = (r, s1)" by (cases "resume t s")
  with Cons.prems have "pending s1 = pending s \<and> mask s1 = mask s"
    unfolding keeps_table_def by (metis snd_conv)
  with Cons.IH [OF Cons.prems, of "wake \<or> r" s1] r show ?case by simp
qed

lemma resume_watchers_keeps:
  "keeps_table resume \<Longrightarrow>
   pending (snd (resume_watchers resume e wake s)) = pending s \<and>
   mask (snd (resume_watchers resume e wake s)) = mask s"
  by (auto simp: resume_watchers_def resume_all_keeps keeps_table_def split_def Let_def
      split: option.splits watcher.splits)

lemma resume_slots_keeps:
  "keeps_table resume \<Longrightarrow>
   pending (snd (resume_slots resume es (wake, s))) = pending s \<and>
   mask (snd (resume_slots resume es (wake, s))) = mask s"
proof (induction es arbitrary: wake s)
  case Nil
  then show ?case by (simp add: resume_slots_def)
next
  case (Cons e es)
  obtain w1 s1 where r: "resume_watchers resume e wake s = (w1, s1)"
    by (cases "resume_watchers resume e wake s")
  with resume_watchers_keeps [OF Cons.prems, of e wake s]
  have "pending s1 = pending s \<and> mask s1 = mask s" by simp
  with Cons.IH [OF Cons.prems, of w1 s1] r show ?case by (simp add: resume_slots_def)
qed

lemma set_bits_and:
  "map (\<lambda>i. block * 32 + i) (set_bits (p AND m)) =
   map (\<lambda>i. block * 32 + i) (filter (\<lambda>i. bit p i \<and> bit m i) [0..<32])"
  unfolding set_bits_def
  by (rule arg_cong [where f = "map (\<lambda>i. block * 32 + i)"], rule filter_cong)
    (auto simp: bit_and_iff)

lemma dispatch_blocks_char:
  assumes keep: "keeps_table resume"
  shows "n \<le> length (pending s0) \<Longrightarrow> length (pending s) = length (pending s0) \<Longrightarrow>
    mask s = mask s0 \<Longrightarrow> (\<forall>b. k \<le> b \<and> b < n \<longrightarrow> pending s ! b = pending s0 ! b) \<Longrightarrow>
    dispatch_blocks resume core [k..<n] wake s = fold (pass_block resume core s0) [k..<n] (wake, s) \<and>
    mask (snd (dispatch_blocks resume core [k..<n] wake s)) = mask s0 \<and>
    length (pending (snd (dispatch_blocks resume core [k..<n] wake s))) = length (pending s0) \<and>
    (\<forall>b < length (pending s0). pending (snd (dispatch_blocks resume core [k..<n] wake s)) ! b =
        (if k \<le> b \<and> b < n then pending s0 ! b AND NOT (mask s0 ! core ! b) else pending s ! b))"
proof (induction "n - k" arbitrary: k wake s)
  case 0
  then have "n \<le> k" by simp
  with 0 show ?case by auto
next
  case (Suc d)
  then have kn: "k < n" by simp
  let ?active = "pending s0 ! k AND mask s0 ! core ! k"
  let ?s1 = "s\<lparr>pending := (pending s)[k := pending s0 ! k AND NOT (mask s0 ! core ! k)]\<rparr>"
  have snap: "dispatch_snapshot core k s = (?active, ?s1)"
    using Suc.prems kn by (simp add: dispatch_snapshot_def Let_def)
  obtain w2 s2 where act: "dispatch_active resume k ?active wake ?s1 = (w2, s2)"
    by (cases "dispatch_active resume k ?active wake ?s1")
  have act': "resume_slots resume (owned_pending core k s0) (wake, ?s1) = (w2, s2)"
    using act by (simp add: dispatch_active_fold set_bits_and owned_pending_def)
  from resume_slots_keeps [OF keep, of "owned_pending core k s0" wake ?s1] act'
  have s2: "pending s2 = pending ?s1" "mask s2 = mask s0"
    using Suc.prems by simp_all
  have len2: "length (pending s2) = length (pending s0)"
    using s2 Suc.prems by simp
  have rest: "\<forall>b. Suc k \<le> b \<and> b < n \<longrightarrow> pending s2 ! b = pending s0 ! b"
    using s2 Suc.prems by auto
  have d: "d = n - Suc k" using Suc.hyps by simp
  note ih = Suc.hyps(1) [OF d Suc.prems(1) len2 s2(2) rest, of w2]
  have unfold: "dispatch_blocks resume core [k..<n] wake s =
      dispatch_blocks resume core [Suc k..<n] w2 s2"
    using kn snap act by (simp add: upt_conv_Cons)
  have step: "pass_block resume core s0 k (wake, s) = (w2, s2)"
    using act' snap by (simp add: pass_block_def drain_block_def)
  have klen: "k < length (pending s)" using kn Suc.prems by simp
  show ?case
    unfolding unfold using ih kn step s2 klen
    by (auto simp: upt_conv_Cons nth_list_update not_less_eq_eq dest: le_antisym)
qed

lemma owned_pending_iff:
  "e \<in> set (owned_pending core block s) \<longleftrightarrow>
     e div 32 = block \<and> is_pending s e \<and> claimed_by s core e"
proof
  assume "e \<in> set (owned_pending core block s)"
  then obtain i where "i < 32" "e = block * 32 + i"
    "bit (pending s ! block) i" "bit (mask s ! core ! block) i"
    by (auto simp: owned_pending_def)
  then show "e div 32 = block \<and> is_pending s e \<and> claimed_by s core e"
    by (simp add: is_pending_def claimed_by_def)
next
  assume a: "e div 32 = block \<and> is_pending s e \<and> claimed_by s core e"
  have "e = block * 32 + e mod 32" using a div_mult_mod_eq [of e 32] by simp
  moreover have "e mod 32 < 32" by simp
  ultimately show "e \<in> set (owned_pending core block s)"
    using a unfolding owned_pending_def is_pending_def claimed_by_def
    by (metis (mono_tags, lifting) atLeastLessThan_iff image_eqI mem_Collect_eq set_filter
        set_map set_upt zero_le)
qed

lemma keeps_logging: "keeps_table logging_resume"
  by (simp add: keeps_table_def logging_resume_def)

lemma two_cores_facts:
  "wf_state two_cores" "(0::nat) < length (mask two_cores)" "(33::nat) < NUM_EVENTS"
  "(0::nat) < NUM_EVENTS"
  "is_pending two_cores 0" "claimed_by two_cores 0 0"
  "is_pending two_cores 33" "claimed_by two_cores 1 33" "\<not> claimed_by two_cores 0 33"
  by (simp_all add: two_cores_def wf_state_def EVENTS_SIZE_def NUM_EVENTS_def is_pending_def
      claimed_by_def)

lemma two_cores_pass:
  "dispatch_pass logging_resume 0 two_cores =
     (True, two_cores\<lparr>pending := [0, 2, 0, 0], machine.more := [1]\<rparr>)"
  by (simp add: dispatch_pass_def EVENTS_SIZE_def NUM_EVENTS_def upt4 dispatch_snapshot_def
      dispatch_active_fold set_bits_def upt32 resume_slots_def resume_watchers_def
      logging_resume_def two_cores_def)

lemma dispatch_blocks_step:
  "dispatch_blocks resume core (block # blocks) wake s =
     (case pass_block resume core s block (wake, s) of
        (wake1, s1) \<Rightarrow> dispatch_blocks resume core blocks wake1 s1)"
  by (simp add: pass_block_def drain_block_def dispatch_snapshot_def Let_def
      dispatch_active_fold set_bits_and owned_pending_def split_def)

lemma drain_block_bits:
  "block < length (pending s) \<Longrightarrow>
   is_pending (drain_block core block s) e \<longleftrightarrow>
     is_pending s e \<and> \<not> (e div 32 = block \<and> claimed_by s core e)"
  by (auto simp: drain_block_def dispatch_snapshot_def Let_def is_pending_def claimed_by_def
      nth_list_update bit_and_iff bit_not_iff dest: bit_imp_le_length)

text \<open>
  C2. Whatever the resumed threads do, each block of a pass is the critical section
  followed by the resumption of the watchers of exactly the slots of the block that
  were pending and in the calling core's mask when the critical section ran; the
  critical section clears exactly those bits from the pending bitmap and leaves the
  masks alone. While the resumed threads leave the pending bitmap and the masks
  alone, a whole pass therefore resumes the watchers of the slots that were pending
  and claimed by the core when the pass began, and of no other slot, and afterwards
  the pending bits are those that were pending and not in the core's mask: a pending
  slot claimed by another core (or by none) is still pending and its watchers were
  not resumed.
\<close>

theorem C2_dispatch_pass:
  assumes wf: "wf_state s" and c: "core < length (mask s)"
  shows
    "(\<forall>block blocks wake. dispatch_blocks resume core (block # blocks) wake s =
        (case pass_block resume core s block (wake, s) of
           (wake1, s1) \<Rightarrow> dispatch_blocks resume core blocks wake1 s1)) \<and>
     (\<forall>block < EVENTS_SIZE. \<forall>e.
        (is_pending (drain_block core block s) e \<longleftrightarrow>
           is_pending s e \<and> \<not> (e div 32 = block \<and> claimed_by s core e)) \<and>
        mask (drain_block core block s) = mask s) \<and>
     (\<forall>e. e \<in> set (owned_pending core (e div 32) s) \<longleftrightarrow> is_pending s e \<and> claimed_by s core e) \<and>
     (keeps_table resume \<longrightarrow>
        dispatch_pass resume core s =
          fold (pass_block resume core s) [0..<EVENTS_SIZE] (False, s) \<and>
        mask (snd (dispatch_pass resume core s)) = mask s \<and>
        length (pending (snd (dispatch_pass resume core s))) = length (pending s) \<and>
        (\<forall>e < NUM_EVENTS. is_pending (snd (dispatch_pass resume core s)) e \<longleftrightarrow>
            is_pending s e \<and> \<not> claimed_by s core e))"
proof (intro conjI allI impI)
  have len: "EVENTS_SIZE \<le> length (pending s)" using wf by (simp add: wf_state_def)
  show "dispatch_blocks resume core (block # blocks) wake s =
        (case pass_block resume core s block (wake, s) of
           (wake1, s1) \<Rightarrow> dispatch_blocks resume core blocks wake1 s1)" for block blocks wake
    by (rule dispatch_blocks_step)
  show "is_pending (drain_block core block s) e \<longleftrightarrow>
           is_pending s e \<and> \<not> (e div 32 = block \<and> claimed_by s core e)"
    if "block < EVENTS_SIZE" for block e
    using that len by (intro drain_block_bits) simp
  show "mask (drain_block core block s) = mask s" for block
    by (simp add: drain_block_def dispatch_snapshot_def Let_def)
  show "e \<in> set (owned_pending core (e div 32) s) \<longleftrightarrow> is_pending s e \<and> claimed_by s core e"
    for e
    by (simp add: owned_pending_iff)
  assume keep: "keeps_table resume"
  note char = dispatch_blocks_char [OF keep len, of s 0 core False, folded dispatch_pass_def]
  from char have all: "\<forall>b < length (pending s).
      pending (snd (dispatch_pass resume core s)) ! b =
        (if 0 \<le> b \<and> b < EVENTS_SIZE then pending s ! b AND NOT (mask s ! core ! b)
         else pending s ! b)"
    by blast
  have p: "pending (snd (dispatch_pass resume core s)) ! b =
      pending s ! b AND NOT (mask s ! core ! b)" if "b < EVENTS_SIZE" for b
  proof -
    from that len have "b < length (pending s)" by simp
    with all that show ?thesis by simp
  qed
  show "is_pending (snd (dispatch_pass resume core s)) e \<longleftrightarrow>
         is_pending s e \<and> \<not> claimed_by s core e" if "e < NUM_EVENTS" for e
    using p [OF block_in_range [OF that]]
    by (auto simp: is_pending_def claimed_by_def bit_and_iff bit_not_iff dest: bit_imp_le_length)
  from char show
    "dispatch_pass resume core s = fold (pass_block resume core s) [0..<EVENTS_SIZE] (False, s)"
    "mask (snd (dispatch_pass resume core s)) = mask s"
    "length (pending (snd (dispatch_pass resume core s))) = length (pending s)"
    by blast+
qed

theorem C2_dispatch_pass_witness:
  "wf_state two_cores \<and> (0::nat) < length (mask two_cores) \<and> keeps_table logging_resume \<and>
   is_pending two_cores 0 \<and> claimed_by two_cores 0 0 \<and>
   is_pending two_cores 33 \<and> claimed_by two_cores 1 33 \<and> \<not> claimed_by two_cores 0 33 \<and>
   \<not> is_pending (snd (dispatch_pass logging_resume 0 two_cores)) 0 \<and>
   is_pending (snd (dispatch_pass logging_resume 0 two_cores)) 33 \<and>
   33 \<notin> set (owned_pending 0 1 two_cores) \<and>
   is_pending (drain_block 0 1 two_cores) 33 \<and>
   dispatch_pass logging_resume 0 two_cores =
     (True, two_cores\<lparr>pending := [0, 2, 0, 0], machine.more := [1]\<rparr>)"
proof -
  note main = C2_dispatch_pass [OF two_cores_facts(1) two_cores_facts(2), of logging_resume]
  from main two_cores_facts keeps_logging
  have a: "\<not> is_pending (snd (dispatch_pass logging_resume 0 two_cores)) 0"
    and b: "is_pending (snd (dispatch_pass logging_resume 0 two_cores)) 33"
    by blast+
  from main have "33 \<in> set (owned_pending 0 (33 div 32) two_cores) \<longleftrightarrow>
      is_pending two_cores 33 \<and> claimed_by two_cores 0 33"
    by blast
  with two_cores_facts have c: "33 \<notin> set (owned_pending 0 1 two_cores)" by simp
  have "(1::nat) < EVENTS_SIZE" by (simp add: EVENTS_SIZE_def NUM_EVENTS_def)
  with main have "is_pending (drain_block 0 1 two_cores) 33 \<longleftrightarrow>
      is_pending two_cores 33 \<and> \<not> (33 div 32 = (1::nat) \<and> claimed_by two_cores 0 33)"
    by blast
  with two_cores_facts have d: "is_pending (drain_block 0 1 two_cores) 33" by simp
  from a b c d two_cores_facts keeps_logging two_cores_pass show ?thesis by simp
qed

subsection \<open>The dispatch loop\<close>

lemma mod_dispatch_exit:
  "mod_dispatch fuel sdk resume core d s = Some (wake, s') \<Longrightarrow>
   wake \<or> is_nil_time sdk d \<or> time_reached sdk d s'"
proof (induction fuel arbitrary: s)
  case 0
  then show ?case by simp
next
  case (Suc fuel)
  obtain w1 s1 where p: "dispatch_pass resume core s = (w1, s1)"
    by (cases "dispatch_pass resume core s")
  show ?case
  proof (cases "w1 \<or> is_nil_time sdk d \<or> time_reached sdk d s1")
    case True
    with Suc.prems p show ?thesis by auto
  next
    case False
    with Suc.prems p Suc.IH show ?thesis by (auto split: if_splits)
  qed
qed

lemma mod_dispatch_nil:
  "is_nil_time sdk d \<Longrightarrow>
   mod_dispatch (Suc fuel) sdk resume core d s = Some (dispatch_pass resume core s)"
  by (simp add: split_def)

lemma mod_dispatch_idle:
  assumes eot: "is_at_the_end_of_time sdk d" and nn: "\<not> is_nil_time sdk d"
  shows "(\<forall>j<k. \<not> fst (idle_pass sdk resume core j s) \<and>
             \<not> time_reached sdk d (snd (idle_pass sdk resume core j s))) \<Longrightarrow>
    mod_dispatch (k + fuel) sdk resume core d s =
    mod_dispatch fuel sdk resume core d ((idle_step sdk resume core ^^ k) s)"
proof (induction k arbitrary: s)
  case 0
  then show ?case by simp
next
  case (Suc k)
  from Suc.prems have first: "\<not> fst (dispatch_pass resume core s)"
    "\<not> time_reached sdk d (snd (dispatch_pass resume core s))"
    by (auto simp: idle_pass_def dest: spec [of _ 0])
  have later: "\<forall>j<k. \<not> fst (idle_pass sdk resume core j (idle_step sdk resume core s)) \<and>
      \<not> time_reached sdk d (snd (idle_pass sdk resume core j (idle_step sdk resume core s)))"
  proof (intro allI impI)
    fix j assume "j < k"
    then have "Suc j < Suc k" by simp
    with Suc.prems show "\<not> fst (idle_pass sdk resume core j (idle_step sdk resume core s)) \<and>
      \<not> time_reached sdk d (snd (idle_pass sdk resume core j (idle_step sdk resume core s)))"
      unfolding idle_pass_def by (metis funpow_Suc_right o_apply)
  qed
  have "mod_dispatch (Suc k + fuel) sdk resume core d s =
      mod_dispatch (k + fuel) sdk resume core d (idle_step sdk resume core s)"
    using first eot nn by (simp add: split_def idle_step_def)
  also have "\<dots> = mod_dispatch fuel sdk resume core d
      ((idle_step sdk resume core ^^ k) (idle_step sdk resume core s))"
    by (rule Suc.IH [OF later])
  finally show ?case by (simp add: funpow_swap1)
qed

lemma resume_all_quiet:
  "(\<forall>t st. \<not> fst (resume t st)) \<Longrightarrow> fst (resume_all resume ts wake s) = wake"
  by (induction ts arbitrary: wake s) (auto simp: split_def)

lemma resume_watchers_quiet:
  "(\<forall>t st. \<not> fst (resume t st)) \<Longrightarrow> fst (resume_watchers resume e wake s) = wake"
  by (auto simp: resume_watchers_def resume_all_quiet split_def Let_def
      split: option.splits watcher.splits)

lemma resume_slots_quiet:
  "(\<forall>t st. \<not> fst (resume t st)) \<Longrightarrow> fst (resume_slots resume es (wake, s)) = wake"
proof (induction es arbitrary: wake s)
  case Nil
  then show ?case by (simp add: resume_slots_def)
next
  case (Cons e es)
  obtain w1 s1 where r: "resume_watchers resume e wake s = (w1, s1)"
    by (cases "resume_watchers resume e wake s")
  with resume_watchers_quiet [OF Cons.prems, of e wake s] have "w1 = wake" by simp
  with Cons.IH [OF Cons.prems, of wake s1] r show ?case by (simp add: resume_slots_def)
qed

lemma dispatch_blocks_quiet:
  "(\<forall>t st. \<not> fst (resume t st)) \<Longrightarrow> fst (dispatch_blocks resume core bs wake s) = wake"
proof (induction bs arbitrary: wake s)
  case Nil
  then show ?case by simp
next
  case (Cons b bs)
  obtain active s1 where sn: "dispatch_snapshot core b s = (active, s1)"
    by (cases "dispatch_snapshot core b s")
  obtain w2 s2 where a: "dispatch_active resume b active wake s1 = (w2, s2)"
    by (cases "dispatch_active resume b active wake s1")
  with resume_slots_quiet [OF Cons.prems] have "w2 = wake"
    by (simp add: dispatch_active_fold) (metis fst_conv)
  with Cons.IH [OF Cons.prems, of wake s2] sn a show ?case by simp
qed

lemmas pass_eval = dispatch_pass_def EVENTS_SIZE_def NUM_EVENTS_def upt4 dispatch_snapshot_def
  dispatch_active_fold set_bits_def upt32 resume_slots_def resume_watchers_def

lemma waiting0_eq:
  "waiting0 = \<lparr>pending = [0, 0, 0, 0], mask = [[1, 0, 0, 0], [0, 0, 0, 0]],
      watchers = (\<lambda>e. if e = 0 then Some (Thread 1) else None), sev = 0, timer = 0\<rparr>"
  by (simp add: waiting0_def claimed0_eq)

lemma idle0: "idle_pass example_platform always_progress 0 0 waiting0 = (False, waiting0)"
  by (simp add: idle_pass_def pass_eval waiting0_eq)

lemma idle1:
  "idle_pass example_platform always_progress 0 1 waiting0 = (False, waiting0\<lparr>timer := 1\<rparr>)"
  by (simp add: idle_pass_def idle_step_def pass_eval waiting0_eq example_platform_def)

lemma idle2:
  "idle_pass example_platform always_progress 0 2 waiting0 = (True, waiting0\<lparr>timer := 2\<rparr>)"
  by (simp add: idle_pass_def idle_step_def pass_eval waiting0_eq example_platform_def
      always_progress_def numeral_2_eq_2)

text \<open>
  C1. For every deadline, \<open>mod_dispatch\<close> returns only with \<open>wake\<close> set, or with a
  deadline that is \<open>nil_time\<close> or has been reached; and \<open>wake\<close> is set only by a resume
  call that returned true. With the sentinel \<open>nil_time\<close> it returns after a single
  pass, whatever that pass reported. With the sentinel \<open>at_the_end_of_time\<close>, as long
  as the passes report no progress (and the clock has not reached that time) it has
  not returned, each pass being followed by \<open>__wfe()\<close>; and it returns at the first
  pass that reports progress.
\<close>

theorem C1_dispatch:
  "(mod_dispatch fuel sdk resume core deadline s = Some (wake, s') \<longrightarrow>
      wake \<or> is_nil_time sdk deadline \<or> time_reached sdk deadline s') \<and>
   ((\<forall>t st. \<not> fst (resume t st)) \<longrightarrow> \<not> fst (dispatch_pass resume core s)) \<and>
   (is_nil_time sdk deadline \<longrightarrow>
      mod_dispatch (Suc fuel) sdk resume core deadline s = Some (dispatch_pass resume core s)) \<and>
   (is_at_the_end_of_time sdk deadline \<and> \<not> is_nil_time sdk deadline \<and>
    (\<forall>j<k. \<not> fst (idle_pass sdk resume core j s) \<and>
           \<not> time_reached sdk deadline (snd (idle_pass sdk resume core j s))) \<longrightarrow>
      mod_dispatch k sdk resume core deadline s = None \<and>
      (fst (idle_pass sdk resume core k s) \<longrightarrow>
         mod_dispatch (Suc (k + fuel)) sdk resume core deadline s =
           Some (True, snd (idle_pass sdk resume core k s))))"
proof (intro conjI impI)
  assume "mod_dispatch fuel sdk resume core deadline s = Some (wake, s')"
  then show "wake \<or> is_nil_time sdk deadline \<or> time_reached sdk deadline s'"
    by (rule mod_dispatch_exit)
next
  assume "\<forall>t st. \<not> fst (resume t st)"
  then show "\<not> fst (dispatch_pass resume core s)"
    by (simp add: dispatch_pass_def dispatch_blocks_quiet)
next
  assume "is_nil_time sdk deadline"
  then show "mod_dispatch (Suc fuel) sdk resume core deadline s =
      Some (dispatch_pass resume core s)"
    by (rule mod_dispatch_nil)
next
  assume a: "is_at_the_end_of_time sdk deadline \<and> \<not> is_nil_time sdk deadline \<and>
    (\<forall>j<k. \<not> fst (idle_pass sdk resume core j s) \<and>
           \<not> time_reached sdk deadline (snd (idle_pass sdk resume core j s)))"
  then have idle: "mod_dispatch (k + n) sdk resume core deadline s =
      mod_dispatch n sdk resume core deadline ((idle_step sdk resume core ^^ k) s)" for n
    by (intro mod_dispatch_idle) simp_all
  from idle [of 0] show "mod_dispatch k sdk resume core deadline s = None" by simp
  assume "fst (idle_pass sdk resume core k s)"
  with idle [of "Suc fuel"]
  show "mod_dispatch (Suc (k + fuel)) sdk resume core deadline s =
           Some (True, snd (idle_pass sdk resume core k s))"
    by (simp add: idle_pass_def split_def)
qed

theorem C1_dispatch_witness:
  "is_at_the_end_of_time example_platform 0x7FFFFFFFFFFFFFFF \<and>
   \<not> is_nil_time example_platform 0x7FFFFFFFFFFFFFFF \<and>
   mod_dispatch 2 example_platform always_progress 0 0x7FFFFFFFFFFFFFFF waiting0 = None \<and>
   mod_dispatch 3 example_platform always_progress 0 0x7FFFFFFFFFFFFFFF waiting0 =
     Some (True, waiting0\<lparr>timer := 2\<rparr>) \<and>
   is_nil_time example_platform 0 \<and>
   mod_dispatch 1 example_platform always_progress 0 0 waiting0 = Some (False, waiting0)"
proof -
  have sen: "is_at_the_end_of_time example_platform 0x7FFFFFFFFFFFFFFF"
    "\<not> is_nil_time example_platform 0x7FFFFFFFFFFFFFFF" "is_nil_time example_platform 0"
    by (simp_all add: example_platform_def)
  have q0: "\<not> fst (idle_pass example_platform always_progress 0 0 waiting0) \<and>
      \<not> time_reached example_platform 0x7FFFFFFFFFFFFFFF
          (snd (idle_pass example_platform always_progress 0 0 waiting0))"
    unfolding idle0 by (simp add: example_platform_def waiting0_eq)
  have q1: "\<not> fst (idle_pass example_platform always_progress 0 1 waiting0) \<and>
      \<not> time_reached example_platform 0x7FFFFFFFFFFFFFFF
          (snd (idle_pass example_platform always_progress 0 1 waiting0))"
    unfolding idle1 by (simp add: example_platform_def waiting0_eq word_le_nat_alt)
  have quiet: "\<forall>j<2. \<not> fst (idle_pass example_platform always_progress 0 j waiting0) \<and>
      \<not> time_reached example_platform 0x7FFFFFFFFFFFFFFF
          (snd (idle_pass example_platform always_progress 0 j waiting0))"
  proof (intro allI impI)
    fix j :: nat assume "j < 2"
    then have "j = 0 \<or> j = 1" by auto
    then show "\<not> fst (idle_pass example_platform always_progress 0 j waiting0) \<and>
      \<not> time_reached example_platform 0x7FFFFFFFFFFFFFFF
          (snd (idle_pass example_platform always_progress 0 j waiting0))"
      using q0 q1 by metis
  qed
  note main = C1_dispatch [where sdk = example_platform and resume = always_progress
      and core = 0 and s = waiting0]
  from main [where deadline = "0x7FFFFFFFFFFFFFFF" and k = 2 and fuel = 0] sen quiet idle2
  have a: "mod_dispatch 2 example_platform always_progress 0 0x7FFFFFFFFFFFFFFF waiting0 = None"
    and b: "mod_dispatch 3 example_platform always_progress 0 0x7FFFFFFFFFFFFFFF waiting0 =
     Some (True, waiting0\<lparr>timer := 2\<rparr>)"
    by (simp_all add: numeral_3_eq_3 numeral_2_eq_2)
  from main [where deadline = 0 and fuel = 0] sen idle0
  have c: "mod_dispatch 1 example_platform always_progress 0 0 waiting0 = Some (False, waiting0)"
    by (simp add: idle_pass_def)
  from sen a b c show ?thesis by simp
qed

subsection \<open>Pending and claimed\<close>

lemma pending_claimed_iff:
  "pending_claimed s \<longleftrightarrow> (\<forall>e < NUM_EVENTS. is_pending s e \<longrightarrow> is_claimed s e)"
  by (auto simp: pending_claimed_def list_all_iff)

lemma claim_effect:
  assumes wf: "wf_state s" and c: "core < length (mask s)"
  shows "pending (snd (snd (mlua_event_claim core ev s))) = pending s \<and>
     wf_state (snd (snd (mlua_event_claim core ev s))) \<and>
     length (mask (snd (snd (mlua_event_claim core ev s)))) = length (mask s) \<and>
     (\<forall>e. is_claimed s e \<longrightarrow> is_claimed (snd (snd (mlua_event_claim core ev s))) e)"
proof (cases "ev < NUM_EVENTS")
  case True
  then show ?thesis using wf by (simp add: mlua_event_claim_def)
next
  case False
  then have ev: "NUM_EVENTS \<le> ev" by simp
  show ?thesis
  proof (cases "\<exists>slot < NUM_EVENTS. \<not> is_claimed s slot")
    case False
    then have "mlua_event_claim core ev s = (Some ''no events available'', ev, s)"
      by (intro claim_exhausted [OF ev]) simp
    then show ?thesis using wf by simp
  next
    case True
    then obtain slot where sl: "slot < NUM_EVENTS" and fr: "\<not> is_claimed s slot"
      and least: "\<forall>j < slot. \<not> (j < NUM_EVENTS \<and> \<not> is_claimed s j)"
      using exists_least_iff [of "\<lambda>x. x < NUM_EVENTS \<and> \<not> is_claimed s x"] by blast
    let ?s' = "s\<lparr>mask := (mask s)[core := (mask s ! core)[slot div 32 :=
                 mask s ! core ! (slot div 32) OR push_bit (slot mod 32) 1]]\<rparr>"
    have low: "is_claimed s j" if "j < slot" for j
      using that least sl by auto
    have eq: "mlua_event_claim core ev s = (None, slot, ?s')"
      by (rule claim_lowest [OF wf c ev sl fr low])
    have mono: "is_claimed ?s' e" if "is_claimed s e" for e
    proof -
      from that obtain c' where c': "c' < length (mask s)" "claimed_by s c' e"
        by (auto simp: is_claimed_iff)
      then have "claimed_by ?s' c' e"
        by (simp add: claimed_by_set_bit [OF wf c sl c'(1)] del: push_bit_of_1)
      with c'(1) show ?thesis
        unfolding is_claimed_iff by (intro exI [of _ c']) simp
    qed
    have "wf_state ?s'" by (rule wf_state_mask_update [OF wf c])
    with eq mono show ?thesis by (simp del: push_bit_of_1)
  qed
qed

lemma unclaim_effect:
  assumes wf: "wf_state s" and c: "core < length (mask s)"
  shows "pending (snd (mlua_event_unclaim unset core e s)) = pending s \<and>
     wf_state (snd (mlua_event_unclaim unset core e s)) \<and>
     length (mask (snd (mlua_event_unclaim unset core e s))) = length (mask s) \<and>
     (\<forall>x. x \<noteq> e \<and> is_claimed s x \<longrightarrow> is_claimed (snd (mlua_event_unclaim unset core e s)) x)"
proof (cases "e < NUM_EVENTS \<and> claimed_by s core e")
  case False
  then have "mlua_event_unclaim unset core e s = (e, s)"
    by (intro unclaim_not_owned) auto
  then show ?thesis using wf by simp
next
  case True
  then have e: "e < NUM_EVENTS" and own: "claimed_by s core e" by simp_all
  let ?s' = "s\<lparr>mask := (mask s)[core := (mask s ! core)[e div 32 :=
                 mask s ! core ! (e div 32) AND NOT (push_bit (e mod 32) 1)]],
        watchers := (watchers s)(e := None)\<rparr>"
  have eq: "snd (mlua_event_unclaim unset core e s) = ?s'"
    by (simp add: unclaim_owned [OF e own])
  have keep: "is_claimed ?s' x" if "x \<noteq> e" "is_claimed s x" for x
  proof -
    from that obtain c' where c': "c' < length (mask s)" "claimed_by s c' x"
      by (auto simp: is_claimed_iff)
    with that have "claimed_by ?s' c' x"
      by (simp add: claimed_by_clear_bit [OF wf c e c'(1)] del: push_bit_of_1)
    with c'(1) show ?thesis
      unfolding is_claimed_iff by (intro exI [of _ c']) simp
  qed
  have "wf_state ?s'"
    using wf_state_mask_update [OF wf c] by (simp add: wf_state_def)
  with keep show ?thesis unfolding eq by (simp del: push_bit_of_1)
qed

lemma set_effect:
  assumes wf: "wf_state s" and r: "mlua_event_set ev s = Some s'"
  shows "mask s' = mask s \<and> wf_state s' \<and>
     (\<forall>e. is_pending s' e \<longrightarrow> is_pending s e \<or> (e = ev \<and> ev < NUM_EVENTS))"
proof (cases "ev < NUM_EVENTS")
  case False
  with r wf show ?thesis by (simp add: mlua_event_set_def)
next
  case True
  then have len: "ev div 32 < length (pending s)"
    using wf block_in_range [of ev] by (simp add: wf_state_def)
  with r True have s': "s' = s\<lparr>pending := (pending s)[ev div 32 :=
       pending s ! (ev div 32) OR push_bit (ev mod 32) 1], sev := Suc (sev s)\<rparr>"
    by (simp add: mlua_event_set_def del: push_bit_of_1)
  have "is_pending s e \<or> e = ev" if "is_pending s' e" for e
    using that len unfolding s'
    by (auto simp: is_pending_def nth_list_update bit_set_slot_pow slot_eq_iff [of e ev]
        split: if_splits)
  with True wf show ?thesis unfolding s' by (auto simp: wf_state_def)
qed

lemma clear_effect:
  assumes wf: "wf_state s" and r: "mlua_event_clear ev s = Some s'"
  shows "mask s' = mask s \<and> wf_state s' \<and> (\<forall>e. is_pending s' e \<longrightarrow> is_pending s e)"
proof (cases "ev < NUM_EVENTS")
  case False
  with r wf show ?thesis by (simp add: mlua_event_clear_def)
next
  case True
  then have len: "ev div 32 < length (pending s)"
    using wf block_in_range [of ev] by (simp add: wf_state_def)
  with r True have s': "s' = s\<lparr>pending := (pending s)[ev div 32 :=
       pending s ! (ev div 32) AND NOT (push_bit (ev mod 32) 1)]\<rparr>"
    by (simp add: mlua_event_clear_def del: push_bit_of_1)
  have "is_pending s e" if "is_pending s' e" for e
    using that len unfolding s'
    by (auto simp: is_pending_def nth_list_update bit_clear_slot_pow split: if_splits)
  with wf show ?thesis unfolding s' by (auto simp: wf_state_def)
qed

lemma dispatch_effect:
  assumes wf: "wf_state s" and keep: "keeps_table resume"
  shows "mask (snd (dispatch_pass resume core s)) = mask s \<and>
     wf_state (snd (dispatch_pass resume core s)) \<and>
     (\<forall>e < NUM_EVENTS. is_pending (snd (dispatch_pass resume core s)) e \<longrightarrow> is_pending s e)"
proof -
  have len: "EVENTS_SIZE \<le> length (pending s)" using wf by (simp add: wf_state_def)
  note char = dispatch_blocks_char [OF keep len, of s 0 core False, folded dispatch_pass_def]
  from char have all: "\<forall>b < length (pending s).
      pending (snd (dispatch_pass resume core s)) ! b =
        (if 0 \<le> b \<and> b < EVENTS_SIZE then pending s ! b AND NOT (mask s ! core ! b)
         else pending s ! b)"
    and m: "mask (snd (dispatch_pass resume core s)) = mask s"
    and l: "length (pending (snd (dispatch_pass resume core s))) = length (pending s)"
    by blast+
  have "is_pending s e" if "e < NUM_EVENTS" "is_pending (snd (dispatch_pass resume core s)) e"
    for e
  proof -
    from block_in_range [OF that(1)] len have "e div 32 < length (pending s)" by simp
    with all block_in_range [OF that(1)]
    have "pending (snd (dispatch_pass resume core s)) ! (e div 32) =
        pending s ! (e div 32) AND NOT (mask s ! core ! (e div 32))" by simp
    with that(2) show ?thesis by (simp add: is_pending_def bit_and_iff)
  qed
  with m l wf show ?thesis by (simp add: wf_state_def)
qed

lemma reachable_table_ok:
  assumes keep: "keeps_table resume" and ok: "table_ok s0"
  shows "reachable True resume s0 s \<Longrightarrow> table_ok s"
proof (induction rule: reachable.induct)
  case start
  show ?case by (rule ok)
next
  case (claim s core ev)
  then have wf: "wf_state s" and inv: "pending_claimed s" by (simp_all add: table_ok_def)
  from claim_effect [OF wf claim.hyps(2), of ev] inv show ?case
    by (auto simp: table_ok_def pending_claimed_iff is_pending_def)
next
  case (unclaim s core e unset)
  then have wf: "wf_state s" and inv: "pending_claimed s" by (simp_all add: table_ok_def)
  note eff = unclaim_effect [OF wf unclaim.hyps(2), of unset e]
  have "is_claimed (snd (mlua_event_unclaim unset core e s)) x"
    if "x < NUM_EVENTS" "is_pending (snd (mlua_event_unclaim unset core e s)) x" for x
  proof -
    from that(2) eff have p: "is_pending s x" by (simp add: is_pending_def)
    with inv that(1) have cl: "is_claimed s x" by (simp add: pending_claimed_iff)
    have "x \<noteq> e"
    proof
      assume "x = e"
      with that(1) unclaim.hyps(3) p show False by simp
    qed
    with cl eff show ?thesis by blast
  qed
  with eff show ?case by (simp add: table_ok_def pending_claimed_iff)
next
  case (set_pending s ev s')
  then have wf: "wf_state s" and inv: "pending_claimed s" by (simp_all add: table_ok_def)
  note eff = set_effect [OF wf set_pending.hyps(2)]
  have "is_claimed s' x" if "x < NUM_EVENTS" "is_pending s' x" for x
  proof -
    from eff that(2) have "is_pending s x \<or> (x = ev \<and> ev < NUM_EVENTS)" by blast
    with inv that(1) set_pending.hyps(3) have "is_claimed s x"
      by (auto simp: pending_claimed_iff)
    with eff show ?thesis by (simp add: is_claimed_def)
  qed
  with eff show ?case by (simp add: table_ok_def pending_claimed_iff)
next
  case (clear_pending s ev s')
  then have wf: "wf_state s" and inv: "pending_claimed s" by (simp_all add: table_ok_def)
  note eff = clear_effect [OF wf clear_pending.hyps(2)]
  have "is_claimed s' x" if "x < NUM_EVENTS" "is_pending s' x" for x
  proof -
    from eff that(2) have "is_pending s x" by blast
    with inv that(1) have "is_claimed s x" by (simp add: pending_claimed_iff)
    with eff show ?thesis by (simp add: is_claimed_def)
  qed
  with eff show ?case by (simp add: table_ok_def pending_claimed_iff)
next
  case (dispatch s core)
  then have wf: "wf_state s" and inv: "pending_claimed s" by (simp_all add: table_ok_def)
  note eff = dispatch_effect [OF wf keep, of core]
  have "is_claimed (snd (dispatch_pass resume core s)) x"
    if "x < NUM_EVENTS" "is_pending (snd (dispatch_pass resume core s)) x" for x
  proof -
    from eff that have "is_pending s x" by blast
    with inv that(1) have "is_claimed s x" by (simp add: pending_claimed_iff)
    with eff show ?thesis by (simp add: is_claimed_def)
  qed
  with eff show ?case by (simp add: table_ok_def pending_claimed_iff)
qed

lemma keeps_always: "keeps_table always_progress"
  by (simp add: keeps_table_def always_progress_def)

lemma boot_ok: "wf_state (boot n)" "pending_claimed (boot n)"
proof -
  show "wf_state (boot n)" by (simp add: boot_def wf_state_def list_all_length)
  have "\<not> is_pending (boot n) e" if "e < NUM_EVENTS" for e
    using block_in_range [OF that] by (simp add: is_pending_def boot_def)
  then show "pending_claimed (boot n)" by (simp add: pending_claimed_iff)
qed

lemma claimed0_step: "claimed0 = snd (snd (mlua_event_claim 0 255 (boot 2)))"
  by (simp add: claimed0_def)

lemma claimed_pending0_step: "mlua_event_set 0 claimed0 = Some claimed_pending0"
  by (simp add: claimed_pending0_eq claimed0_eq mlua_event_set_def NUM_EVENTS_def)

lemma stray5_eq:
  "stray5 = \<lparr>pending = [32, 0, 0, 0], mask = [[0, 0, 0, 0], [0, 0, 0, 0]],
      watchers = (\<lambda>_. None), sev = 1, timer = 0\<rparr>"
  by (simp add: stray5_def mlua_event_set_def eval_simps)

lemma stray5_step: "mlua_event_set 5 (boot 2) = Some stray5"
  by (simp add: stray5_eq mlua_event_set_def eval_simps)

lemma reach_claimed0: "reachable d always_progress (boot 2) claimed0"
  unfolding claimed0_step
  by (rule reachable.claim [OF reachable.start]) (simp add: boot_def)

lemma claimed0_claimed: "is_claimed claimed0 0"
  by (simp add: claimed0_eq is_claimed_def)

lemma reach_claimed_pending0: "reachable d always_progress (boot 2) claimed_pending0"
  by (rule reachable.set_pending [OF reach_claimed0 claimed_pending0_step])
    (rule claimed0_claimed)

lemma dangling0_eq:
  "dangling0 = \<lparr>pending = [1, 0, 0, 0], mask = [[0, 0, 0, 0], [0, 0, 0, 0]],
      watchers = (\<lambda>_. None), sev = 1, timer = 0\<rparr>"
  by (simp add: dangling0_def claimed_pending0_eq mlua_event_unclaim_def NUM_EVENTS_def
      fun_eq_iff)

text \<open>
  C5 as stated fails: \<open>mlua_event_set\<close> sets the pending bit of any id below
  \<open>NUM_EVENTS\<close>, claimed or not, and \<open>mlua_event_unclaim\<close> leaves the pending bitmap
  alone. Both states are reached from the start-up state, and in both a slot is
  pending and claimed by no core.
\<close>

theorem C5_pending_claimed_counterexample:
  "reachable False always_progress (boot 2) dangling0 \<and>
   is_pending dangling0 0 \<and> \<not> is_claimed dangling0 0 \<and> \<not> pending_claimed dangling0 \<and>
   reachable False always_progress (boot 2) stray5 \<and>
   is_pending stray5 5 \<and> \<not> is_claimed stray5 5 \<and> \<not> pending_claimed stray5"
proof -
  have r1: "reachable False always_progress (boot 2) dangling0"
    unfolding dangling0_def
    by (rule reachable.unclaim [OF reach_claimed_pending0])
      (simp_all add: claimed_pending0_eq)
  have r2: "reachable False always_progress (boot 2) stray5"
    by (rule reachable.set_pending [OF reachable.start stray5_step]) simp
  have d: "is_pending dangling0 0" "\<not> is_claimed dangling0 0"
    by (simp_all add: dangling0_eq is_pending_def is_claimed_def)
  have s: "is_pending stray5 5" "\<not> is_claimed stray5 5"
    by (simp_all add: stray5_eq is_pending_def is_claimed_def)
  have nd: "\<not> pending_claimed dangling0"
    unfolding pending_claimed_iff using d by (intro notI) (auto simp: NUM_EVENTS_def)
  have ns: "\<not> pending_claimed stray5"
    unfolding pending_claimed_iff using s
    by (intro notI) (auto simp: NUM_EVENTS_def dest: spec [of _ 5])
  from r1 r2 d s nd ns show ?thesis by simp
qed

lemma drained0_eq:
  "drained0 = \<lparr>pending = [0, 0, 0, 0], mask = [[1, 0, 0, 0], [0, 0, 0, 0]],
      watchers = (\<lambda>_. None), sev = 1, timer = 0\<rparr>"
  by (simp add: drained0_def claimed_pending0_eq pass_eval)

lemma released0_eq:
  "released0 = \<lparr>pending = [0, 0, 0, 0], mask = [[0, 0, 0, 0], [0, 0, 0, 0]],
      watchers = (\<lambda>_. None), sev = 1, timer = 0\<rparr>"
  by (simp add: released0_def drained0_eq mlua_event_unclaim_def NUM_EVENTS_def fun_eq_iff)

lemma reach_drained0: "reachable d always_progress (boot 2) drained0"
  unfolding drained0_def
  by (rule reachable.dispatch [OF reach_claimed_pending0]) (simp add: claimed_pending0_eq)

lemma reach_released0: "reachable d always_progress (boot 2) released0"
  unfolding released0_def
  by (rule reachable.unclaim [OF reach_drained0])
    (simp_all add: drained0_eq is_pending_def)

text \<open>
  C5, amended. Starting from a state in which every pending slot is claimed, every
  state reached by claim, unclaim, set, clear and dispatch passes (whose resumed
  threads leave the bitmaps alone) has every pending slot claimed by some core,
  provided set is only applied to slots that are claimed at that moment and unclaim
  only to slots whose pending bit is clear.
\<close>

theorem C5_pending_claimed:
  assumes "reachable True resume s0 s" and "keeps_table resume"
    and "wf_state s0" and "pending_claimed s0"
  shows "pending_claimed s \<and> wf_state s"
  using reachable_table_ok [OF assms(2) _ assms(1)] assms(3) assms(4)
  by (simp add: table_ok_def)

theorem C5_pending_claimed_witness:
  "reachable True always_progress (boot 2) claimed_pending0 \<and>
   reachable True always_progress (boot 2) released0 \<and> keeps_table always_progress \<and>
   wf_state (boot 2) \<and> pending_claimed (boot 2) \<and>
   is_pending claimed_pending0 0 \<and> is_claimed claimed_pending0 0 \<and>
   pending_claimed claimed_pending0 \<and> wf_state claimed_pending0 \<and>
   pending_claimed released0 \<and> wf_state released0"
proof -
  have bits: "is_pending claimed_pending0 0" "is_claimed claimed_pending0 0"
    by (simp_all add: claimed_pending0_eq is_pending_def is_claimed_def)
  from C5_pending_claimed [OF reach_claimed_pending0 keeps_always boot_ok]
  have a: "pending_claimed claimed_pending0 \<and> wf_state claimed_pending0" .
  from C5_pending_claimed [OF reach_released0 keeps_always boot_ok]
  have b: "pending_claimed released0 \<and> wf_state released0" .
  from a b reach_claimed_pending0 [of True] reach_released0 [of True] keeps_always
    boot_ok [of 2] bits
  show ?thesis by simp
qed

end
